theory Spec2Isabelle
  imports Complex_Main "HOL-Library.Word" "HOL-Library.Log_Nat"
begin

section \<open>JavaScript values used by the chat analyzer\<close>

subsection \<open>Strings\<close>

text \<open>
  A JavaScript string is a sequence of UTF-16 code units. String literals of the source
  are ASCII and are written through \<open>of_ascii\<close>.
\<close>

type_synonym jschar = "16 word"
type_synonym jsstring = "jschar list"

definition of_ascii :: "string \<Rightarrow> jsstring" where
  "of_ascii s = map of_char s"

text \<open>
  The code units that \<open>String.prototype.trim\<close> strips and that the regular expression
  class \<open>\s\<close> accepts: ECMAScript's WhiteSpace and LineTerminator.
\<close>

definition isWhiteSpace :: "jschar \<Rightarrow> bool" where
  "isWhiteSpace c =
     (c \<in> set [0x9, 0xA, 0xB, 0xC, 0xD, 0x20, 0xA0, 0x1680, 0x2028, 0x2029, 0x202F, 0x205F,
               0x3000, 0xFEFF]
      \<or> (0x2000 \<le> c \<and> c \<le> 0x200A))"

definition trim :: "jsstring \<Rightarrow> jsstring" where
  "trim s = rev (dropWhile isWhiteSpace (rev (dropWhile isWhiteSpace s)))"

text \<open>\<open>s.split(sep)\<close> for a separator of one code unit: never the empty array.\<close>

fun split_on :: "jschar \<Rightarrow> jsstring \<Rightarrow> jsstring list" where
  "split_on sep [] = [[]]"
| "split_on sep (c # cs) =
     (if c = sep then [] # split_on sep cs
      else (case split_on sep cs of [] \<Rightarrow> [[c]] | l # ls \<Rightarrow> (c # l) # ls))"

text \<open>\<open>s.includes(t)\<close>: \<open>t\<close> occurs in \<open>s\<close> as a contiguous run.\<close>

fun str_includes :: "jsstring \<Rightarrow> jsstring \<Rightarrow> bool" where
  "str_includes [] t = (t = [])"
| "str_includes (c # cs) t = (take (length t) (c # cs) = t \<or> str_includes cs t)"

subsection \<open>Numbers\<close>

text \<open>
  A JavaScript number is an IEEE 754 double. \<open>Num\<close> carries the rational value of a
  finite double; \<open>NaN\<close> and the two infinities are kept apart. The sign of zero is not
  modelled: every divisor of the program is the length of an array or a positive constant.

  Every arithmetic operation of the language returns the double nearest to the exact
  result, a tie going to the double whose significand is even. \<open>ilog2 x\<close> is the exponent
  \<open>e\<close> with \<open>2^e \<le> x < 2^(e+1)\<close> of a positive rational, computed from the bit lengths of
  its numerator and denominator. \<open>ulp x\<close> is the distance between the doubles around \<open>x\<close>:
  \<open>2^(e-52)\<close> for a significand of 53 bits, and \<open>2^(-1074)\<close> in the subnormal range.
  \<open>nearest_double\<close> rounds to a multiple of it, and \<open>fl\<close> is the result of an operation
  whose exact value is \<open>x\<close>: an infinity when the rounded value reaches \<open>2^1024\<close>, that
  is, when its exponent reaches 1024.
\<close>

datatype jsnum = Num rat | NaN | PosInfinity | NegInfinity

definition ilog2 :: "rat \<Rightarrow> int" where
  "ilog2 x =
     (let e0 = bitlen (fst (quotient_of x)) - bitlen (snd (quotient_of x))
      in if 2 powi e0 \<le> x then e0 else e0 - 1)"

definition round_even :: "rat \<Rightarrow> int" where
  "round_even m =
     (let f = \<lfloor>m\<rfloor>; r = m - of_int f
      in if r < 1 / 2 then f else if 1 / 2 < r then f + 1 else if even f then f else f + 1)"

definition ulp :: "rat \<Rightarrow> rat" where
  "ulp x = 2 powi (max (ilog2 \<bar>x\<bar> - 52) (- 1074))"

definition min_ulp :: rat where
  "min_ulp = 2 powi (- 1074)"

definition nearest_double :: "rat \<Rightarrow> rat" where
  "nearest_double x = (if x = 0 then 0 else of_int (round_even (x / ulp x)) * ulp x)"

definition fl :: "rat \<Rightarrow> jsnum" where
  "fl x =
     (let y = nearest_double x
      in if y = 0 then Num 0
         else if ilog2 \<bar>y\<bar> < 1024 then Num y
         else if 0 < y then PosInfinity else NegInfinity)"

text \<open>Addition, negation, subtraction and multiplication.\<close>

fun js_add :: "jsnum \<Rightarrow> jsnum \<Rightarrow> jsnum" where
  "js_add (Num a) (Num b) = fl (a + b)"
| "js_add NaN _ = NaN"
| "js_add _ NaN = NaN"
| "js_add PosInfinity NegInfinity = NaN"
| "js_add NegInfinity PosInfinity = NaN"
| "js_add PosInfinity _ = PosInfinity"
| "js_add NegInfinity _ = NegInfinity"
| "js_add (Num a) b = b"

fun js_neg :: "jsnum \<Rightarrow> jsnum" where
  "js_neg (Num a) = Num (- a)"
| "js_neg NaN = NaN"
| "js_neg PosInfinity = NegInfinity"
| "js_neg NegInfinity = PosInfinity"

definition js_sub :: "jsnum \<Rightarrow> jsnum \<Rightarrow> jsnum" where
  "js_sub a b = js_add a (js_neg b)"

fun js_sgn_inf :: "rat \<Rightarrow> jsnum" where
  "js_sgn_inf s = (if s = 0 then NaN else if 0 < s then PosInfinity else NegInfinity)"

fun js_mul :: "jsnum \<Rightarrow> jsnum \<Rightarrow> jsnum" where
  "js_mul (Num a) (Num b) = fl (a * b)"
| "js_mul NaN _ = NaN"
| "js_mul _ NaN = NaN"
| "js_mul (Num a) PosInfinity = js_sgn_inf a"
| "js_mul (Num a) NegInfinity = js_sgn_inf (- a)"
| "js_mul PosInfinity (Num b) = js_sgn_inf b"
| "js_mul NegInfinity (Num b) = js_sgn_inf (- b)"
| "js_mul PosInfinity PosInfinity = PosInfinity"
| "js_mul NegInfinity NegInfinity = PosInfinity"
| "js_mul PosInfinity NegInfinity = NegInfinity"
| "js_mul NegInfinity PosInfinity = NegInfinity"

text \<open>Division: \<open>0 / 0\<close> is \<open>NaN\<close>, any other quotient by zero is an infinity.\<close>

fun js_div :: "jsnum \<Rightarrow> jsnum \<Rightarrow> jsnum" where
  "js_div (Num a) (Num b) = (if b = 0 then js_sgn_inf a else fl (a / b))"
| "js_div NaN _ = NaN"
| "js_div _ NaN = NaN"
| "js_div (Num a) _ = Num 0"
| "js_div PosInfinity (Num b) = (if 0 \<le> b then PosInfinity else NegInfinity)"
| "js_div NegInfinity (Num b) = (if 0 \<le> b then NegInfinity else PosInfinity)"
| "js_div _ _ = NaN"

text \<open>
  \<open>Math.round\<close>: the nearest integer, a tie going up. (The integer nearest to a double is
  a double, so nothing is rounded twice.)
\<close>

definition round_half_up :: "rat \<Rightarrow> int" where
  "round_half_up x = \<lfloor>x + 1 / 2\<rfloor>"

fun Math_round :: "jsnum \<Rightarrow> jsnum" where
  "Math_round (Num a) = Num (of_int (round_half_up a))"
| "Math_round x = x"

fun Math_abs :: "jsnum \<Rightarrow> jsnum" where
  "Math_abs (Num a) = Num \<bar>a\<bar>"
| "Math_abs NaN = NaN"
| "Math_abs _ = PosInfinity"

fun Math_min :: "jsnum \<Rightarrow> jsnum \<Rightarrow> jsnum" where
  "Math_min (Num a) (Num b) = Num (min a b)"
| "Math_min NaN _ = NaN"
| "Math_min _ NaN = NaN"
| "Math_min NegInfinity _ = NegInfinity"
| "Math_min _ NegInfinity = NegInfinity"
| "Math_min PosInfinity b = b"
| "Math_min a PosInfinity = a"

text \<open>\<open>a > b\<close>: false as soon as one side is \<open>NaN\<close>.\<close>

fun js_gt :: "jsnum \<Rightarrow> jsnum \<Rightarrow> bool" where
  "js_gt (Num a) (Num b) = (b < a)"
| "js_gt NaN _ = False"
| "js_gt _ NaN = False"
| "js_gt NegInfinity _ = False"
| "js_gt PosInfinity b = (b \<noteq> PosInfinity)"
| "js_gt (Num a) b = (b = NegInfinity)"

definition js_lt :: "jsnum \<Rightarrow> jsnum \<Rightarrow> bool" where
  "js_lt a b = js_gt b a"

text \<open>\<open>a === b\<close> on numbers: \<open>NaN\<close> equals nothing.\<close>

definition js_eq :: "jsnum \<Rightarrow> jsnum \<Rightarrow> bool" where
  "js_eq a b = (a \<noteq> NaN \<and> a = b)"

text \<open>
  The length of an array or of a string as a number: an integer below \<open>2^53\<close>, which is a
  double. So are the sums of lengths and the counts that the program forms over an array;
  no operation rounds them, and they are computed on natural numbers.
\<close>

definition js_of_nat :: "nat \<Rightarrow> jsnum" where
  "js_of_nat n = Num (of_nat n)"

subsection \<open>Dates\<close>

text \<open>
  A \<open>Date\<close> object holds a time value, an integer number of milliseconds since the epoch
  (of at most \<open>8.64 * 10^15\<close> in absolute value, so a double), or is an Invalid Date, whose
  \<open>getTime()\<close> is \<open>NaN\<close>.
\<close>

datatype Date = Date int | InvalidDate

fun getTime :: "Date \<Rightarrow> jsnum" where
  "getTime (Date t) = Num (of_int t)"
| "getTime InvalidDate = NaN"

section \<open>The transcript parser (FileUpload.tsx)\<close>

subsection \<open>Regular expressions\<close>

text \<open>
  The fragment of regular expressions the parser's pattern is written in: character
  classes, greedy counted repetition of a character class (\<open>{lo,hi}\<close>, \<open>*\<close>, \<open>+\<close>),
  optional parts, sequence and capture groups. \<open>run r st\<close> lists every way \<open>r\<close> can match
  a prefix of the input left in \<open>st\<close>, in the order a backtracking matcher tries them:
  a greedy repetition takes as many characters as it can first, an optional part is
  tried before it is skipped.
\<close>

datatype regex =
    Chr "jschar \<Rightarrow> bool"
  | Rep nat "nat option" "jschar \<Rightarrow> bool"
  | Opt regex
  | Seq regex regex
  | Group nat regex

type_synonym captures = "nat \<rightharpoonup> jsstring"
type_synonym mstate = "captures \<times> jsstring"

fun greedy_counts :: "nat \<Rightarrow> nat \<Rightarrow> nat list" where
  "greedy_counts lo 0 = (if lo = 0 then [0] else [])"
| "greedy_counts lo (Suc m) = (if lo \<le> Suc m then Suc m # greedy_counts lo m else [])"

fun run :: "regex \<Rightarrow> mstate \<Rightarrow> mstate list" where
  "run (Chr p) (caps, s) =
     (case s of [] \<Rightarrow> [] | c # cs \<Rightarrow> if p c then [(caps, cs)] else [])"
| "run (Rep lo hi p) (caps, s) =
     (let n = length (takeWhile p s);
          m = (case hi of None \<Rightarrow> n | Some h \<Rightarrow> min h n)
      in map (\<lambda>k. (caps, drop k s)) (greedy_counts lo m))"
| "run (Opt r) st = run r st @ [st]"
| "run (Seq r1 r2) st = concat (map (run r2) (run r1 st))"
| "run (Group i r) (caps, s) =
     map (\<lambda>(caps', s'). (caps'(i \<mapsto> take (length s - length s') s), s')) (run r (caps, s))"

text \<open>
  A pattern anchored by \<open>^\<close> and \<open>$\<close> (without the multiline flag): the first way of
  matching that uses up the whole input, if there is one.
\<close>

definition match_anchored :: "regex \<Rightarrow> jsstring \<Rightarrow> captures option" where
  "match_anchored r s =
     (case filter (\<lambda>st. snd st = []) (run r (Map.empty, s)) of
        [] \<Rightarrow> None
      | st # _ \<Rightarrow> Some (fst st))"

text \<open>The capture groups that every match of a pattern sets.\<close>

fun mandatory_groups :: "regex \<Rightarrow> nat set" where
  "mandatory_groups (Chr p) = {}"
| "mandatory_groups (Rep lo hi p) = {}"
| "mandatory_groups (Opt r) = {}"
| "mandatory_groups (Seq r1 r2) = mandatory_groups r1 \<union> mandatory_groups r2"
| "mandatory_groups (Group i r) = insert i (mandatory_groups r)"

definition lit :: "char \<Rightarrow> regex" where
  "lit c = Chr (\<lambda>x. x = of_char c)"

definition digit :: "jschar \<Rightarrow> bool" where
  "digit c = (0x30 \<le> c \<and> c \<le> 0x39)"

definition one_of :: "string \<Rightarrow> jschar \<Rightarrow> bool" where
  "one_of cs c = (c \<in> set (of_ascii cs))"

definition not_colon :: "jschar \<Rightarrow> bool" where
  "not_colon c = (c \<noteq> 0x3A)"

text \<open>\<open>.\<close> accepts every code unit but the line terminators.\<close>

definition dot :: "jschar \<Rightarrow> bool" where
  "dot c = (c \<notin> set [0xA, 0xD, 0x2028, 0x2029])"

definition rx_star :: "(jschar \<Rightarrow> bool) \<Rightarrow> regex" where
  "rx_star p = Rep 0 None p"

definition rx_plus :: "(jschar \<Rightarrow> bool) \<Rightarrow> regex" where
  "rx_plus p = Rep 1 None p"

definition rx_rep :: "nat \<Rightarrow> nat \<Rightarrow> (jschar \<Rightarrow> bool) \<Rightarrow> regex" where
  "rx_rep lo hi p = Rep lo (Some hi) p"

fun seqs :: "regex list \<Rightarrow> regex" where
  "seqs [] = Rep 0 (Some 0) (\<lambda>_. False)"
| "seqs [r] = r"
| "seqs (r # rs) = Seq r (seqs rs)"

text \<open>
  The pattern of one message line:
  \<^verbatim>\<open>/^\[?(\d{1,2}\/\d{1,2}\/\d{2,4}),?\s*(\d{1,2}:\d{2}(?::\d{2})?(?:\s*[AaPp][Mm])?)\]?\s*-?\s*([^:]+):\s*(.+)$/\<close>
\<close>

definition date_pattern :: regex where
  "date_pattern =
     seqs [rx_rep 1 2 digit, lit CHR ''/'', rx_rep 1 2 digit, lit CHR ''/'', rx_rep 2 4 digit]"

definition time_pattern :: regex where
  "time_pattern =
     seqs [rx_rep 1 2 digit, lit CHR '':'', rx_rep 2 2 digit,
           Opt (seqs [lit CHR '':'', rx_rep 2 2 digit]),
           Opt (seqs [rx_star isWhiteSpace, Chr (one_of ''AaPp''), Chr (one_of ''Mm'')])]"

definition line_pattern :: regex where
  "line_pattern =
     seqs [Opt (lit CHR ''[''),
           Group 1 date_pattern,
           Opt (lit CHR '',''), rx_star isWhiteSpace,
           Group 2 time_pattern,
           Opt (lit CHR '']''), rx_star isWhiteSpace, Opt (lit CHR ''-''), rx_star isWhiteSpace,
           Group 3 (rx_plus not_colon),
           lit CHR '':'', rx_star isWhiteSpace,
           Group 4 (rx_plus dot)]"

subsection \<open>Messages\<close>

text \<open>
  The analysis reads \<open>contact\<close>, \<open>message\<close> and \<open>timestamp\<close> of a message; the objects the
  parser pushes carry the matched \<open>date\<close> and \<open>time\<close> tokens as well.
\<close>

record Message =
  contact :: jsstring
  message :: jsstring
  timestamp :: Date

record ParsedMessage = Message +
  date :: jsstring
  time :: jsstring

datatype error = NoMessagesFound | TypeError

text \<open>
  The body of \<open>lines.forEach\<close> for one line: \<open>None\<close> when the line does not match.
  The four groups are mandatory parts of the pattern: a match sets each of them.
  \<open>new Date(string)\<close> on a string that is not in the ISO format is left to the host by
  ECMAScript; the constructor is the parameter \<open>newDate\<close>.
\<close>

definition parse_line :: "(jsstring \<Rightarrow> Date) \<Rightarrow> jsstring \<Rightarrow> ParsedMessage option" where
  "parse_line newDate line =
     (case match_anchored line_pattern line of
        None \<Rightarrow> None
      | Some caps \<Rightarrow>
          (let d = the (caps 1); t = the (caps 2); c = the (caps 3); m = the (caps 4)
           in Some \<lparr>contact = trim c, message = trim m,
                    timestamp = newDate (d @ of_ascii '' '' @ t),
                    date = d, time = t\<rparr>))"

text \<open>
  What \<open>processWhatsAppFile\<close> makes of a file's content: the messages it hands to
  \<open>onFileProcessed\<close>, or the error it throws.
\<close>

definition processWhatsAppFile ::
  "(jsstring \<Rightarrow> Date) \<Rightarrow> jsstring \<Rightarrow> error + ParsedMessage list" where
  "processWhatsAppFile newDate content =
     (let lines = filter (\<lambda>line. trim line \<noteq> []) (split_on 0xA content);
          messages = List.map_filter (parse_line newDate) lines
      in if length messages = 0 then Inl NoMessagesFound else Inr messages)"

section \<open>The analytics engine (ChatAnalysis.tsx)\<close>

subsection \<open>Library functions of the host\<close>

text \<open>
  \<open>toLowerCase\<close> and \<open>toUpperCase\<close> follow the Unicode case mappings and \<open>getDay\<close> reads
  the time zone of the machine: they are parameters of the analysis, collected in a
  record. So is the order in which \<open>Array.prototype.sort\<close> leaves an array when the
  comparator is not consistent, which ECMAScript leaves to the implementation:
  \<open>sort_order\<close> receives the time values of the elements and answers with a rank for each
  element, the array being put in the order of the ranks. \<open>ascii_utc_host\<close> is the host of a
  machine in UTC, with the case mappings as they are on ASCII text, whose sort leaves
  such an array as it is.
\<close>

record host =
  toLowerCase :: "jsstring \<Rightarrow> jsstring"
  toUpperCase :: "jsstring \<Rightarrow> jsstring"
  getDay :: "Date \<Rightarrow> jsnum"
  sort_order :: "jsnum list \<Rightarrow> nat list"

definition ascii_toLowerCase :: "jsstring \<Rightarrow> jsstring" where
  "ascii_toLowerCase s = map (\<lambda>c. if 0x41 \<le> c \<and> c \<le> 0x5A then c + 0x20 else c) s"

definition ascii_toUpperCase :: "jsstring \<Rightarrow> jsstring" where
  "ascii_toUpperCase s = map (\<lambda>c. if 0x61 \<le> c \<and> c \<le> 0x7A then c - 0x20 else c) s"

fun utc_getDay :: "Date \<Rightarrow> jsnum" where
  "utc_getDay (Date t) = Num (of_int ((t div 86400000 + 4) mod 7))"
| "utc_getDay InvalidDate = NaN"

definition ascii_utc_host :: host where
  "ascii_utc_host =
     \<lparr>toLowerCase = ascii_toLowerCase, toUpperCase = ascii_toUpperCase, getDay = utc_getDay,
      sort_order = (\<lambda>ts. [])\<rparr>"

subsection \<open>Objects keyed by contact\<close>

text \<open>
  \<open>new Set(xs)\<close> spread into an array: the distinct elements in the order of their first
  occurrence.
\<close>

definition Set_add :: "'a list \<Rightarrow> 'a \<Rightarrow> 'a list" where
  "Set_add s x = (if x \<in> set s then s else s @ [x])"

definition new_Set :: "'a list \<Rightarrow> 'a list" where
  "new_Set xs = foldl Set_add [] xs"

text \<open>Reading an array by index: \<open>undefined\<close> (\<open>None\<close>) out of range.\<close>

definition elem_at :: "'a list \<Rightarrow> nat \<Rightarrow> 'a option" where
  "elem_at xs i = (if i < length xs then Some (xs ! i) else None)"

text \<open>
  A computed property name \<open>[contact]\<close>: the contact itself, and the string
  \<open>undefined\<close> when there is no such contact.
\<close>

definition key :: "jsstring option \<Rightarrow> jsstring" where
  "key c = (case c of None \<Rightarrow> of_ascii ''undefined'' | Some s \<Rightarrow> s)"

text \<open>
  \<open>obj[k]++\<close> on an object of counters. A key the object does not hold reads as
  something that is not a number, and the counter becomes \<open>NaN\<close>. A counter is
  incremented at most once for each element of an array, which has fewer than \<open>2^32\<close>
  elements: the sum is an integer below \<open>2^53\<close> and is not rounded.
\<close>

type_synonym counters = "jsstring \<rightharpoonup> jsnum"

definition increment :: "counters \<Rightarrow> jsstring \<Rightarrow> counters" where
  "increment obj k =
     obj(k \<mapsto> (case obj k of None \<Rightarrow> NaN | Some (Num a) \<Rightarrow> Num (a + 1) | Some v \<Rightarrow> v))"

subsection \<open>Contacts, counts and interest levels\<close>

definition contacts_of :: "'a Message_scheme list \<Rightarrow> jsstring list" where
  "contacts_of messages = new_Set (map contact messages)"

definition contact1_of :: "'a Message_scheme list \<Rightarrow> jsstring option" where
  "contact1_of messages = elem_at (contacts_of messages) 0"

definition contact2_of :: "'a Message_scheme list \<Rightarrow> jsstring option" where
  "contact2_of messages = elem_at (contacts_of messages) 1"

definition messages_of ::
  "jsstring option \<Rightarrow> 'a Message_scheme list \<Rightarrow> 'a Message_scheme list" where
  "messages_of c messages = filter (\<lambda>m. Some (contact m) = c) messages"

definition AvgLength :: "'a Message_scheme list \<Rightarrow> jsnum" where
  "AvgLength contactMessages =
     js_div (js_of_nat (foldl (\<lambda>sum m. sum + length (message m)) 0 contactMessages))
            (js_of_nat (length contactMessages))"

definition Interest :: "'a Message_scheme list \<Rightarrow> nat \<Rightarrow> jsnum" where
  "Interest contactMessages totalMessages =
     Math_round (js_mul (js_div (js_of_nat (length contactMessages)) (js_of_nat totalMessages))
                        (Num 100))"

definition compatibility :: "jsnum \<Rightarrow> jsnum \<Rightarrow> jsnum" where
  "compatibility contact1Interest contact2Interest =
     (let mutualInterest = Math_min contact1Interest contact2Interest
      in Math_round
           (js_div (js_add mutualInterest
                      (js_sub (Num 100) (Math_abs (js_sub contact1Interest contact2Interest))))
                   (Num 2)))"

subsection \<open>Red flags\<close>

record RedFlag =
  category :: jsstring
  flag_message :: jsstring
  severity :: jsstring

definition redFlagKeywords :: "(string \<times> string list) list" where
  "redFlagKeywords =
     [(''ex'', [''ex'', ''former'', ''past relationship'']),
      (''money'', [''broke'', ''money'', ''cash'', ''poor'', ''rich'']),
      (''blocking'', [''block'', ''blocked'', ''ignore'', ''ignored'']),
      (''toxic'', [''hate'', ''stupid'', ''idiot'', ''annoying''])]"

text \<open>The decimal digits of a count, as a template string prints it.\<close>

fun Number_toString :: "nat \<Rightarrow> jsstring" where
  "Number_toString n =
     (if n < 10 then [0x30 + of_nat n]
      else Number_toString (n div 10) @ [0x30 + of_nat (n mod 10)])"

declare Number_toString.simps [simp del]

definition keyword_count :: "host \<Rightarrow> 'a Message_scheme list \<Rightarrow> string \<Rightarrow> nat" where
  "keyword_count h messages keyword =
     length (filter (\<lambda>m. str_includes (toLowerCase h (message m)) (of_ascii keyword)) messages)"

definition flag_of :: "string \<Rightarrow> string \<Rightarrow> nat \<Rightarrow> RedFlag" where
  "flag_of cat keyword count =
     \<lparr>category = of_ascii cat,
      flag_message = of_ascii ''Mentioned '' @ [0x22] @ of_ascii keyword @ [0x22, 0x20]
                     @ Number_toString count @ of_ascii '' times'',
      severity = of_ascii (if count > 10 then ''high'' else if count > 5 then ''medium''
                           else ''low'')\<rparr>"

definition redFlags_of :: "host \<Rightarrow> 'a Message_scheme list \<Rightarrow> RedFlag list" where
  "redFlags_of h messages =
     concat (map (\<lambda>(cat, keywords).
       concat (map (\<lambda>keyword.
         (let count = keyword_count h messages keyword
          in if count > 0 then [flag_of cat keyword count] else [])) keywords))
       redFlagKeywords)"

subsection \<open>The chronological view\<close>

text \<open>
  \<open>[...messages].sort((a, b) => a.timestamp.getTime() - b.timestamp.getTime())\<close>.
  \<open>Array.prototype.sort\<close> is stable, and a comparator result of \<open>NaN\<close> counts as zero.
  The comparator is consistent when no time value is \<open>NaN\<close>, and also when the time
  values that are not \<open>NaN\<close> are all the same (every comparison is then a tie): the
  result is the stable sort, written as an insertion sort. Otherwise an Invalid Date
  ties with two dates that do not tie with each other, and the order is the host's.
\<close>

definition compare_timestamps :: "'a Message_scheme \<Rightarrow> 'a Message_scheme \<Rightarrow> jsnum" where
  "compare_timestamps a b = js_sub (getTime (timestamp a)) (getTime (timestamp b))"

fun insert_by :: "('a \<Rightarrow> 'a \<Rightarrow> jsnum) \<Rightarrow> 'a \<Rightarrow> 'a list \<Rightarrow> 'a list" where
  "insert_by cmp x [] = [x]"
| "insert_by cmp x (y # ys) =
     (if js_gt (cmp x y) (Num 0) then y # insert_by cmp x ys else x # y # ys)"

definition stable_sort :: "('a \<Rightarrow> 'a \<Rightarrow> jsnum) \<Rightarrow> 'a list \<Rightarrow> 'a list" where
  "stable_sort cmp xs = foldr (insert_by cmp) xs []"

definition consistent_times :: "jsnum list \<Rightarrow> bool" where
  "consistent_times ts =
     (if NaN \<in> set ts then length (remdups (filter (\<lambda>t. t \<noteq> NaN) ts)) \<le> 1 else True)"

text \<open>
  The array in the order of the ranks the host gives, elements of equal rank in the
  order they had; an element left without a rank has rank 0.
\<close>

definition host_order :: "nat list \<Rightarrow> 'a list \<Rightarrow> 'a list" where
  "host_order ranks xs = map snd (sort_key fst (zip (ranks @ replicate (length xs) 0) xs))"

definition sortedMessages_of :: "host \<Rightarrow> 'a Message_scheme list \<Rightarrow> 'a Message_scheme list" where
  "sortedMessages_of h messages =
     (let ts = map (\<lambda>m. getTime (timestamp m)) messages
      in if consistent_times ts then stable_sort compare_timestamps messages
         else host_order (sort_order h ts) messages)"

subsection \<open>Response times\<close>

text \<open>
  The loop over the consecutive pairs of the sorted messages. \<open>responseTimes\<close> holds an
  array for \<open>contact1\<close> and for \<open>contact2\<close> only: \<open>push\<close> on the entry of any other
  contact throws a \<open>TypeError\<close>.
\<close>

fun responseTimes_loop ::
  "'a Message_scheme list \<Rightarrow> (jsstring \<rightharpoonup> jsnum list) \<Rightarrow> error + (jsstring \<rightharpoonup> jsnum list)" where
  "responseTimes_loop (previous # current # rest) responseTimes =
     (if contact current \<noteq> contact previous then
        (let timeDiff = js_div (js_sub (getTime (timestamp current))
                                       (getTime (timestamp previous))) (Num (1000 * 60))
         in if js_lt timeDiff (Num 1440) then
              (case responseTimes (contact current) of
                 None \<Rightarrow> Inl TypeError
               | Some ts \<Rightarrow>
                   responseTimes_loop (current # rest)
                     (responseTimes(contact current \<mapsto> ts @ [timeDiff])))
            else responseTimes_loop (current # rest) responseTimes)
      else responseTimes_loop (current # rest) responseTimes)"
| "responseTimes_loop sortedMessages responseTimes = Inr responseTimes"

definition avgResponseTime_of :: "jsnum list \<Rightarrow> jsnum" where
  "avgResponseTime_of ts =
     (if length ts > 0
      then Math_round (js_div (foldl js_add (Num 0) ts) (js_of_nat (length ts)))
      else Num 0)"

subsection \<open>Conversation starters\<close>

text \<open>
  The body of \<open>sortedMessages.forEach\<close>, on the pair of the counters and
  \<open>lastMessageTime\<close>.
\<close>

definition starters_step ::
  "counters \<times> jsnum \<Rightarrow> 'a Message_scheme \<Rightarrow> counters \<times> jsnum" where
  "starters_step st m =
     (let timeDiff = js_div (js_sub (getTime (timestamp m)) (snd st)) (Num (1000 * 60 * 60))
      in (if js_gt timeDiff (Num 4) then increment (fst st) (contact m) else fst st,
          getTime (timestamp m)))"

definition conversationStarters_of ::
  "jsstring option \<Rightarrow> jsstring option \<Rightarrow> 'a Message_scheme list \<Rightarrow> counters" where
  "conversationStarters_of contact1 contact2 sortedMessages =
     fst (foldl starters_step ([key contact1 \<mapsto> Num 0, key contact2 \<mapsto> Num 0], Num 0)
            sortedMessages)"

subsection \<open>Weekend and weekday messages\<close>

definition weekend_step ::
  "host \<Rightarrow> counters \<times> counters \<Rightarrow> 'a Message_scheme \<Rightarrow> counters \<times> counters" where
  "weekend_step h st m =
     (let day = getDay h (timestamp m)
      in if js_eq day (Num 0) \<or> js_eq day (Num 6)
         then (increment (fst st) (contact m), snd st)
         else (fst st, increment (snd st) (contact m)))"

definition weekend_weekday_of ::
  "host \<Rightarrow> jsstring option \<Rightarrow> jsstring option \<Rightarrow> 'a Message_scheme list
   \<Rightarrow> counters \<times> counters" where
  "weekend_weekday_of h contact1 contact2 messages =
     foldl (weekend_step h)
       ([key contact1 \<mapsto> Num 0, key contact2 \<mapsto> Num 0],
        [key contact1 \<mapsto> Num 0, key contact2 \<mapsto> Num 0])
       messages"

subsection \<open>Sentiment\<close>

text \<open>\<open>s.split(/\s+/)\<close>: the pieces between the maximal runs of white space.\<close>

function split_ws_from :: "jsstring \<Rightarrow> jsstring \<Rightarrow> jsstring list" where
  "split_ws_from cur [] = [cur]"
| "split_ws_from cur (c # cs) =
     (if isWhiteSpace c then cur # split_ws_from [] (dropWhile isWhiteSpace cs)
      else split_ws_from (cur @ [c]) cs)"
  by pat_completeness auto
termination
  by (relation "measure (\<lambda>(cur, s). length s)")
     (auto simp: length_dropWhile_le less_Suc_eq_le)

definition split_ws :: "jsstring \<Rightarrow> jsstring list" where
  "split_ws s = split_ws_from [] s"

definition positiveWords :: "string list" where
  "positiveWords =
     [''love'', ''great'', ''amazing'', ''awesome'', ''happy'', ''good'', ''nice'',
      ''wonderful'', ''perfect'', ''beautiful'', ''yes'', ''thanks'', ''thank'', ''best'',
      ''excited'', ''fun'']"

definition negativeWords :: "string list" where
  "negativeWords =
     [''hate'', ''bad'', ''terrible'', ''awful'', ''sad'', ''angry'', ''no'', ''sorry'',
      ''worst'', ''annoying'', ''boring'', ''stupid'', ''frustrated'', ''tired'']"

definition lexicon_hits :: "string list \<Rightarrow> jsstring list \<Rightarrow> nat" where
  "lexicon_hits lexicon words =
     length (filter (\<lambda>word. list_ex (\<lambda>w. str_includes word (of_ascii w)) lexicon) words)"

definition sentiment_step :: "host \<Rightarrow> nat \<times> nat \<Rightarrow> 'a Message_scheme \<Rightarrow> nat \<times> nat" where
  "sentiment_step h st m =
     (let words = split_ws (toLowerCase h (message m))
      in (fst st + lexicon_hits positiveWords words, snd st + lexicon_hits negativeWords words))"

definition getSentimentScore :: "host \<Rightarrow> 'a Message_scheme list \<Rightarrow> jsnum" where
  "getSentimentScore h contactMessages =
     (let counts = foldl (sentiment_step h) (0, 0) contactMessages;
          positiveCount = fst counts;
          total = fst counts + snd counts
      in if total > 0
         then Math_round (js_mul (js_div (js_of_nat positiveCount) (js_of_nat total)) (Num 100))
         else Num 50)"

subsection \<open>Communication style\<close>

record CommunicationStyle =
  questions :: jsnum
  exclamations :: jsnum
  caps :: jsnum

definition is_caps :: "host \<Rightarrow> 'a Message_scheme \<Rightarrow> bool" where
  "is_caps h m = (message m = toUpperCase h (message m) \<and> length (message m) > 3)"

definition percentage :: "nat \<Rightarrow> nat \<Rightarrow> jsnum" where
  "percentage n len = Math_round (js_mul (js_div (js_of_nat n) (js_of_nat len)) (Num 100))"

definition getCommunicationStyle :: "host \<Rightarrow> 'a Message_scheme list \<Rightarrow> CommunicationStyle" where
  "getCommunicationStyle h contactMessages =
     (let questions = length (filter (\<lambda>m. str_includes (message m) (of_ascii ''?'')) contactMessages);
          exclamations = length (filter (\<lambda>m. str_includes (message m) (of_ascii ''!'')) contactMessages);
          caps = length (filter (is_caps h) contactMessages)
      in \<lparr>questions = percentage questions (length contactMessages),
          exclamations = percentage exclamations (length contactMessages),
          caps = percentage caps (length contactMessages)\<rparr>)"

subsection \<open>Energy level\<close>

text \<open>
  The emoji pattern carries the \<open>u\<close> flag and so is matched against code points: a high
  surrogate followed by a low surrogate is one of them.
\<close>

fun code_points :: "jsstring \<Rightarrow> nat list" where
  "code_points (c1 # c2 # cs) =
     (if 0xD800 \<le> c1 \<and> c1 \<le> 0xDBFF \<and> 0xDC00 \<le> c2 \<and> c2 \<le> 0xDFFF
      then (0x10000 + (unat c1 - 0xD800) * 0x400 + (unat c2 - 0xDC00)) # code_points cs
      else unat c1 # code_points (c2 # cs))"
| "code_points [c] = [unat c]"
| "code_points [] = []"

definition emoji :: "nat \<Rightarrow> bool" where
  "emoji cp =
     ((0x1F600 \<le> cp \<and> cp \<le> 0x1F64F) \<or> (0x1F300 \<le> cp \<and> cp \<le> 0x1F5FF)
      \<or> (0x1F680 \<le> cp \<and> cp \<le> 0x1F6FF) \<or> (0x1F1E0 \<le> cp \<and> cp \<le> 0x1F1FF)
      \<or> (0x2600 \<le> cp \<and> cp \<le> 0x26FF) \<or> (0x2700 \<le> cp \<and> cp \<le> 0x27BF))"

definition energy_of :: "host \<Rightarrow> 'a Message_scheme \<Rightarrow> nat" where
  "energy_of h m =
     (let exclamations = length (filter (\<lambda>c. c = 0x21) (message m));
          caps = (if is_caps h m then 1 else 0);
          emojis = length (filter emoji (code_points (message m)))
      in (exclamations * 2) + (caps * 3) + (emojis * 1))"

definition getEnergyLevel :: "host \<Rightarrow> 'a Message_scheme list \<Rightarrow> jsnum" where
  "getEnergyLevel h contactMessages =
     (let energyScore = foldl (\<lambda>energyScore m. energyScore + energy_of h m) 0 contactMessages;
          totalMessages = length contactMessages
      in if totalMessages > 0
         then Math_round (js_mul (js_div (js_of_nat energyScore) (js_of_nat totalMessages))
                                 (Num 10))
         else Num 0)"

subsection \<open>The analysis\<close>

text \<open>
  The value of the \<open>useMemo\<close> callback: \<open>None\<close> is its \<open>null\<close> on no messages, \<open>Inl\<close> the
  exception it throws. Of the result object, the fields kept are the ones the
  properties below are about; each object with one entry per contact is a map from
  the property name.
\<close>

record Analysis =
  contacts :: "jsstring option \<times> jsstring option"
  messageCounts :: "jsstring \<rightharpoonup> nat"
  interestLevels :: "jsstring \<rightharpoonup> jsnum"
  redFlags :: "RedFlag list"
  compatibilityScore :: jsnum
  totalMessages :: nat
  avgMessageLength :: "jsstring \<rightharpoonup> jsnum"
  avgResponseTime :: "jsstring \<rightharpoonup> jsnum"
  conversationStarters :: counters
  weekend :: counters
  weekday :: counters
  sentimentScores :: "jsstring \<rightharpoonup> jsnum"
  communicationStyles :: "jsstring \<rightharpoonup> CommunicationStyle"
  energyLevels :: "jsstring \<rightharpoonup> jsnum"

definition analysis :: "host \<Rightarrow> 'a Message_scheme list \<Rightarrow> error + Analysis option" where
  "analysis h messages =
     (if length messages = 0 then Inr None
      else
        (let contact1 = contact1_of messages;
             contact2 = contact2_of messages;
             contact1Messages = messages_of contact1 messages;
             contact2Messages = messages_of contact2 messages;
             totalMessages = length messages;
             contact1Interest = Interest contact1Messages totalMessages;
             contact2Interest = Interest contact2Messages totalMessages;
             sortedMessages = sortedMessages_of h messages;
             activity = weekend_weekday_of h contact1 contact2 messages
         in case responseTimes_loop sortedMessages [key contact1 \<mapsto> [], key contact2 \<mapsto> []] of
              Inl e \<Rightarrow> Inl e
            | Inr responseTimes \<Rightarrow>
                Inr (Some
                  \<lparr>contacts = (contact1, contact2),
                   messageCounts = [key contact1 \<mapsto> length contact1Messages,
                                    key contact2 \<mapsto> length contact2Messages],
                   interestLevels = [key contact1 \<mapsto> contact1Interest,
                                     key contact2 \<mapsto> contact2Interest],
                   redFlags = redFlags_of h messages,
                   compatibilityScore = compatibility contact1Interest contact2Interest,
                   totalMessages = totalMessages,
                   avgMessageLength = [key contact1 \<mapsto> Math_round (AvgLength contact1Messages),
                                       key contact2 \<mapsto> Math_round (AvgLength contact2Messages)],
                   avgResponseTime =
                     [key contact1 \<mapsto> avgResponseTime_of (the (responseTimes (key contact1))),
                      key contact2 \<mapsto> avgResponseTime_of (the (responseTimes (key contact2)))],
                   conversationStarters = conversationStarters_of contact1 contact2 sortedMessages,
                   weekend = fst activity,
                   weekday = snd activity,
                   sentimentScores = [key contact1 \<mapsto> getSentimentScore h contact1Messages,
                                      key contact2 \<mapsto> getSentimentScore h contact2Messages],
                   communicationStyles = [key contact1 \<mapsto> getCommunicationStyle h contact1Messages,
                                          key contact2 \<mapsto> getCommunicationStyle h contact2Messages],
                   energyLevels = [key contact1 \<mapsto> getEnergyLevel h contact1Messages,
                                   key contact2 \<mapsto> getEnergyLevel h contact2Messages]\<rparr>)))"

subsection \<open>Reading a result, and sample transcripts\<close>

definition returns :: "error + Analysis option \<Rightarrow> bool" where
  "returns x = (case x of Inr (Some r) \<Rightarrow> True | _ \<Rightarrow> False)"

definition result :: "error + Analysis option \<Rightarrow> Analysis" where
  "result x = the (projr x)"

definition msg :: "string \<Rightarrow> string \<Rightarrow> int \<Rightarrow> Message" where
  "msg c text t = \<lparr>contact = of_ascii c, message = of_ascii text, timestamp = Date t\<rparr>"

text \<open>Two contacts, five minutes apart on 2 January 2024.\<close>

definition two_party_chat :: "Message list" where
  "two_party_chat =
     [msg ''Alice'' ''hello'' 1704189600000, msg ''Bob'' ''hi there!'' 1704189900000]"

text \<open>The same, and a third contact writing two days later.\<close>

definition group_chat :: "Message list" where
  "group_chat =
     [msg ''Alice'' ''hello'' 1704189600000, msg ''Bob'' ''hi there!'' 1704189900000,
      msg ''Carol'' ''good morning'' 1704362400000]"

text \<open>Three contacts within ten minutes.\<close>

definition busy_group_chat :: "Message list" where
  "busy_group_chat =
     [msg ''Alice'' ''hello'' 1704189600000, msg ''Bob'' ''hi there!'' 1704189900000,
      msg ''Carol'' ''good morning'' 1704190200000]"

text \<open>Example 1 of the specification, and what the parser makes of it.\<close>

definition example1_text :: jsstring where
  "example1_text =
     of_ascii ''1/2/24, 10:00 - Alice: hello'' @ [0xA] @ of_ascii ''1/2/24, 10:05 - Bob: hi there!''"

definition example1_messages :: "(jsstring \<Rightarrow> Date) \<Rightarrow> ParsedMessage list" where
  "example1_messages newDate =
     [\<lparr>contact = of_ascii ''Alice'', message = of_ascii ''hello'',
       timestamp = newDate (of_ascii ''1/2/24 10:00''),
       date = of_ascii ''1/2/24'', time = of_ascii ''10:00''\<rparr>,
      \<lparr>contact = of_ascii ''Bob'', message = of_ascii ''hi there!'',
       timestamp = newDate (of_ascii ''1/2/24 10:05''),
       date = of_ascii ''1/2/24'', time = of_ascii ''10:05''\<rparr>]"

text \<open>
  Example 1 with a third line, in which a third contact answers five minutes after the
  second: the text, and the contact and the message of each message the parser returns.
\<close>

definition busy_group_text :: jsstring where
  "busy_group_text =
     of_ascii ''1/2/24, 10:00 - Alice: hello'' @ [0xA] @ of_ascii ''1/2/24, 10:05 - Bob: hi there!''
     @ [0xA] @ of_ascii ''1/2/24, 10:10 - Carol: good morning''"

definition contact_and_message :: "'a Message_scheme \<Rightarrow> jsstring \<times> jsstring" where
  "contact_and_message m = (contact m, message m)"

text \<open>
  Three messages that are not in the order of their times: the second contact writes
  first, five minutes later the first contact answers, and writes again five hours after
  that; the transcript has this last message first.
\<close>

definition evening_chat :: "Message list" where
  "evening_chat =
     [msg ''Bob'' ''good evening'' 1704207900000, msg ''Alice'' ''hello'' 1704189600000,
      msg ''Bob'' ''hi there!'' 1704189900000]"

text \<open>A transcript in which only one contact writes.\<close>

definition lone_chat :: "Message list" where
  "lone_chat = [msg ''Alice'' ''hello'' 1704189600000]"

subsection \<open>The specification's wording, for comparison\<close>

text \<open>
  The time value of a valid date, for stating that the sorted view is in chronological
  order.
\<close>

fun the_time :: "Date \<Rightarrow> int" where
  "the_time (Date t) = t"
| "the_time InvalidDate = 0"

text \<open>
  Conversation starters as the specification words them: a message starts a conversation
  when the gap since the message before it exceeds 4 hours, the first message being
  compared against epoch zero. A gap to or from an Invalid Date exceeds nothing.
\<close>

definition more_than_4_hours_after :: "Date \<Rightarrow> Date \<Rightarrow> bool" where
  "more_than_4_hours_after d previous =
     (case (d, previous) of
        (Date t, Date p) \<Rightarrow> t - p > 4 * 60 * 60 * 1000
      | _ \<Rightarrow> False)"

definition spec_conversationStarters :: "jsstring \<Rightarrow> 'a Message_scheme list \<Rightarrow> nat" where
  "spec_conversationStarters c sortedMessages =
     length (filter (\<lambda>(previous, m). contact m = c \<and> more_than_4_hours_after (timestamp m) previous)
               (zip (Date 0 # map timestamp sortedMessages) sortedMessages))"

text \<open>
  Occurrences of a keyword as the specification words them: every position at which the
  keyword occurs, in every message.
\<close>

fun occurrences :: "jsstring \<Rightarrow> jsstring \<Rightarrow> nat" where
  "occurrences [] t = (if t = [] then 1 else 0)"
| "occurrences (c # cs) t = (if take (length t) (c # cs) = t then 1 else 0) + occurrences cs t"

definition spec_occurrence_count :: "host \<Rightarrow> 'a Message_scheme list \<Rightarrow> string \<Rightarrow> nat" where
  "spec_occurrence_count h messages keyword =
     sum_list (map (\<lambda>m. occurrences (toLowerCase h (message m)) (of_ascii keyword)) messages)"

text \<open>The keywords of \<open>redFlagKeywords\<close>, each with its category, in the order of the loops.\<close>

definition keyword_table :: "(string \<times> string) list" where
  "keyword_table =
     [(''ex'', ''ex''), (''ex'', ''former''), (''ex'', ''past relationship''),
      (''money'', ''broke''), (''money'', ''money''), (''money'', ''cash''),
      (''money'', ''poor''), (''money'', ''rich''),
      (''blocking'', ''block''), (''blocking'', ''blocked''), (''blocking'', ''ignore''),
      (''blocking'', ''ignored''),
      (''toxic'', ''hate''), (''toxic'', ''stupid''), (''toxic'', ''idiot''),
      (''toxic'', ''annoying'')]"

text \<open>
  More sample transcripts: a single message one hour after the epoch; a single message
  with an Invalid Date; one message that mentions a keyword twice; seven messages, six of
  which mention \<open>blocked\<close>.
\<close>

definition epoch_chat :: "Message list" where
  "epoch_chat = [msg ''Alice'' ''hello'' 3600000]"

definition undated_chat :: "Message list" where
  "undated_chat =
     [\<lparr>contact = of_ascii ''Alice'', message = of_ascii ''hello'', timestamp = InvalidDate\<rparr>]"

definition repeat_chat :: "Message list" where
  "repeat_chat = [msg ''Alice'' ''you block me, I BLOCK you'' 1704189600000]"

definition blocked_chat :: "Message list" where
  "blocked_chat =
     [msg ''Alice'' ''you blocked me'' 1704189600000, msg ''Bob'' ''no'' 1704189660000,
      msg ''Alice'' ''Blocked, I say'' 1704189720000, msg ''Alice'' ''blocked again'' 1704189780000,
      msg ''Alice'' ''still blocked'' 1704189840000, msg ''Alice'' ''BLOCKED'' 1704189900000,
      msg ''Alice'' ''blocked blocked blocked'' 1704189960000]"

section \<open>Properties of the parser\<close>

subsection \<open>A matching line is not blank\<close>

lemma digit_not_space: "digit c \<Longrightarrow> \<not> isWhiteSpace c"
  unfolding digit_def isWhiteSpace_def
  by (auto simp: word_le_nat_alt)

lemma in_set_dropWhile: "x \<in> set xs \<Longrightarrow> \<not> P x \<Longrightarrow> x \<in> set (dropWhile P xs)"
  by (induction xs) auto

lemma trim_nonempty:
  assumes "c \<in> set s" and "\<not> isWhiteSpace c"
  shows "trim s \<noteq> []"
proof -
  from assms have "c \<in> set (dropWhile isWhiteSpace s)" by (rule in_set_dropWhile)
  then have "c \<in> set (rev (dropWhile isWhiteSpace s))" by simp
  then have "c \<in> set (dropWhile isWhiteSpace (rev (dropWhile isWhiteSpace s)))"
    using assms(2) by (rule in_set_dropWhile)
  then have "dropWhile isWhiteSpace (rev (dropWhile isWhiteSpace s)) \<noteq> []"
    by (cases "dropWhile isWhiteSpace (rev (dropWhile isWhiteSpace s))") auto
  then show ?thesis unfolding trim_def by (simp only: rev_is_Nil_conv not_False_eq_True)
qed

lemma greedy_counts_pos: "0 < lo \<Longrightarrow> k \<in> set (greedy_counts lo m) \<Longrightarrow> 0 < m"
  by (cases m) (auto split: if_splits)

lemma run_Rep_pos:
  assumes "0 < lo" and "run (Rep lo hi p) (cp, s) \<noteq> []"
  shows "s \<noteq> [] \<and> p (hd s)"
proof -
  let ?n = "length (takeWhile p s)"
  let ?m = "(case hi of None \<Rightarrow> ?n | Some h \<Rightarrow> min h ?n)"
  from assms(2) have "greedy_counts lo ?m \<noteq> []" by (simp add: Let_def)
  then obtain k where "k \<in> set (greedy_counts lo ?m)" by (cases "greedy_counts lo ?m") auto
  with assms(1) have "0 < ?m" by (rule greedy_counts_pos)
  then have "0 < ?n" by (cases hi) auto
  then show ?thesis by (cases s) (auto split: if_splits)
qed

lemma run_Seq_nonempty:
  "run (Seq r1 r2) st \<noteq> [] \<Longrightarrow> \<exists>st1 \<in> set (run r1 st). run r2 st1 \<noteq> []"
  by auto

lemma run_Seq_first: "run (Seq r1 r2) st \<noteq> [] \<Longrightarrow> run r1 st \<noteq> []"
  by auto

lemma run_Group_nonempty: "run (Group i r) st \<noteq> [] \<Longrightarrow> run r st \<noteq> []"
  by (cases st) auto

lemma date_pattern_digit:
  assumes "run date_pattern (cp, s) \<noteq> []"
  shows "s \<noteq> [] \<and> digit (hd s)"
proof -
  from assms have h: "run (Rep 1 (Some 2) digit) (cp, s) \<noteq> []"
    unfolding date_pattern_def rx_rep_def seqs.simps by (rule run_Seq_first)
  have "0 < (1::nat)" by simp
  from run_Rep_pos[OF this h] show ?thesis .
qed

lemma line_pattern_digit:
  assumes "run line_pattern (cp, s) \<noteq> []"
  shows "\<exists>c \<in> set s. digit c"
proof -
  from assms obtain st1 where st1: "st1 \<in> set (run (Opt (lit CHR ''['')) (cp, s))"
    and r: "run (Group 1 date_pattern) st1 \<noteq> []"
    unfolding line_pattern_def seqs.simps
    by (blast dest: run_Seq_nonempty run_Seq_first)
  from r have "run date_pattern st1 \<noteq> []" by (rule run_Group_nonempty)
  then have d: "snd st1 \<noteq> [] \<and> digit (hd (snd st1))"
    using date_pattern_digit[of "fst st1" "snd st1"] by simp
  from st1 have "snd st1 = s \<or> (\<exists>c. s = c # snd st1)"
    by (auto simp: lit_def split: list.splits if_splits)
  with d show ?thesis by (cases "snd st1") auto
qed

lemma match_line_not_blank:
  assumes "match_anchored line_pattern line \<noteq> None"
  shows "trim line \<noteq> []"
proof -
  from assms have "run line_pattern (Map.empty, line) \<noteq> []"
    unfolding match_anchored_def by (auto split: list.splits)
  then obtain c where "c \<in> set line" and "digit c" using line_pattern_digit by blast
  then show ?thesis using trim_nonempty digit_not_space by blast
qed

lemma parse_line_None:
  "parse_line nd line = None \<longleftrightarrow> match_anchored line_pattern line = None"
  unfolding parse_line_def by (auto simp: Let_def split: option.splits)

lemma map_filter_Nil: "List.map_filter f xs = [] \<longleftrightarrow> (\<forall>x \<in> set xs. f x = None)"
  by (induction xs) (auto simp: List.map_filter_simps split: option.splits)

subsection \<open>A match sets the four groups\<close>

lemma run_groups:
  "st' \<in> set (run r st) \<Longrightarrow> dom (fst st) \<union> mandatory_groups r \<subseteq> dom (fst st')"
proof (induction r arbitrary: st st')
  case (Chr p)
  obtain cp s where st: "st = (cp, s)" by (cases st)
  with Chr have "fst st' = cp" by (cases s) (simp_all split: if_splits)
  with st show ?case by simp
next
  case (Rep lo hi p)
  obtain cp s where st: "st = (cp, s)" by (cases st)
  with Rep have "fst st' = cp" by (auto simp: Let_def)
  with st show ?case by simp
next
  case (Opt r)
  from Opt.prems have "st' \<in> set (run r st) \<or> st' = st" by auto
  then show ?case
  proof
    assume "st' \<in> set (run r st)"
    from Opt.IH[OF this] show ?thesis by simp
  next
    assume "st' = st"
    then show ?thesis by simp
  qed
next
  case (Seq r1 r2)
  from Seq.prems obtain st1 where 1: "st1 \<in> set (run r1 st)" and 2: "st' \<in> set (run r2 st1)"
    by auto
  from Seq.IH(1)[OF 1] Seq.IH(2)[OF 2] show ?case by (simp only: mandatory_groups.simps) blast
next
  case (Group i r)
  obtain cp s where st: "st = (cp, s)" by (cases st)
  with Group.prems obtain cp' s' where 1: "(cp', s') \<in> set (run r (cp, s))"
    and 2: "st' = (cp'(i \<mapsto> take (length s - length s') s), s')" by auto
  from Group.IH[OF 1] have "dom cp \<union> mandatory_groups r \<subseteq> dom cp'" by simp
  with st 2 show ?case by auto
qed

lemma line_pattern_groups: "mandatory_groups line_pattern = {1, 2, 3, 4}"
  by (simp add: line_pattern_def date_pattern_def time_pattern_def lit_def rx_rep_def rx_star_def
      rx_plus_def insert_commute)

lemma match_line_groups:
  assumes "match_anchored line_pattern line = Some cp"
  shows "cp 1 \<noteq> None \<and> cp 2 \<noteq> None \<and> cp 3 \<noteq> None \<and> cp 4 \<noteq> None"
proof -
  from assms obtain st rest
    where f: "filter (\<lambda>st. snd st = []) (run line_pattern (Map.empty, line)) = st # rest"
      and cp: "cp = fst st"
    unfolding match_anchored_def by (auto split: list.splits)
  have "st \<in> set (filter (\<lambda>st. snd st = []) (run line_pattern (Map.empty, line)))"
    unfolding f by simp
  then have "st \<in> set (run line_pattern (Map.empty, line))" by simp
  from run_groups[OF this] cp have "{1, 2, 3, 4} \<subseteq> dom cp"
    by (simp only: line_pattern_groups) simp
  then show ?thesis by auto
qed

subsection \<open>The timestamp of a parsed message\<close>

text \<open>
  What the parser itself fixes about the timestamp: it is the host's \<open>Date\<close> of the date
  token, one space and the time token, as they stand in the line.
\<close>

lemma parse_line_timestamp:
  assumes "parse_line newDate line = Some m"
  shows "timestamp m = newDate (date m @ of_ascii '' '' @ time m)"
  using assms unfolding parse_line_def by (auto simp: Let_def split: option.splits)

section \<open>Properties of the arithmetic\<close>

subsection \<open>The exponent of a positive rational\<close>

lemma quotient_of_pos:
  assumes "0 < x"
  shows "0 < fst (quotient_of x)" "0 < snd (quotient_of x)"
    "x = of_int (fst (quotient_of x)) / of_int (snd (quotient_of x))"
proof -
  obtain p q where pq: "quotient_of x = (p, q)" by (cases "quotient_of x")
  then have q: "0 < q" by (rule quotient_of_denom_pos)
  from pq have x: "x = of_int p / of_int q" by (rule quotient_of_div)
  with assms q have "0 < p" by (simp add: zero_less_divide_iff)
  with q x pq show "0 < fst (quotient_of x)" "0 < snd (quotient_of x)"
    "x = of_int (fst (quotient_of x)) / of_int (snd (quotient_of x))" by simp_all
qed

lemma two_powi_pos: "0 < (2::rat) powi a"
  by (rule zero_less_power_int) simp

lemma two_powi_less_imp: "(2::rat) powi a < 2 powi b \<Longrightarrow> a < b"
proof (rule ccontr)
  assume l: "(2::rat) powi a < 2 powi b" and "\<not> a < b"
  then have "b \<le> a" by simp
  then have "(2::rat) powi b \<le> 2 powi a" by (rule power_int_increasing) simp
  with l show False by simp
qed

lemma two_powi_diff: "(2::rat) powi (a - b) = 2 powi a / 2 powi b"
  by (rule power_int_diff) simp

lemma ilog2_lower:
  assumes "0 < x"
  shows "2 powi (ilog2 x) \<le> x"
proof -
  let ?p = "fst (quotient_of x)" and ?q = "snd (quotient_of x)"
  let ?e0 = "bitlen ?p - bitlen ?q"
  note pq = quotient_of_pos[OF assms]
  show ?thesis
  proof (cases "2 powi ?e0 \<le> x")
    case True
    then show ?thesis by (simp add: ilog2_def Let_def)
  next
    case False
    have bp: "1 \<le> bitlen ?p" using pq(1) by (simp add: bitlen_alt_def)
    have bq: "0 \<le> bitlen ?q" by (rule bitlen_nonneg)
    have "2 ^ nat (bitlen ?p - 1) \<le> ?p" using bitlen_bounds[OF pq(1)] by simp
    then have "(of_int (2 ^ nat (bitlen ?p - 1)) :: rat) \<le> of_int ?p" by (simp only: of_int_le_iff)
    then have 1: "(2::rat) powi (bitlen ?p - 1) \<le> of_int ?p"
      using bp by (simp add: power_int_nonneg_exp)
    have "?q < 2 ^ nat (bitlen ?q)" using bitlen_bounds[OF pq(2)] by simp
    then have "(of_int ?q :: rat) < of_int (2 ^ nat (bitlen ?q))" by (simp only: of_int_less_iff)
    then have 2: "(of_int ?q :: rat) \<le> 2 powi (bitlen ?q)"
      using bq by (simp add: power_int_nonneg_exp)
    have q0: "(0::rat) < of_int ?q" using pq(2) by simp
    have "(2::rat) powi (?e0 - 1) = 2 powi (bitlen ?p - 1) / 2 powi (bitlen ?q)"
      using two_powi_diff[of "bitlen ?p - 1" "bitlen ?q"] by (simp add: algebra_simps)
    also have "\<dots> \<le> of_int ?p / 2 powi (bitlen ?q)"
      using 1 two_powi_pos[of "bitlen ?q"] by (simp add: divide_right_mono)
    also have "\<dots> \<le> of_int ?p / of_int ?q"
      using 2 q0 pq(1) by (intro divide_left_mono) (simp_all add: two_powi_pos)
    also have "\<dots> = x" using pq(3) by simp
    finally show ?thesis using False by (simp add: ilog2_def Let_def)
  qed
qed

lemma ilog2_upper:
  assumes "0 < x"
  shows "x < 2 powi (ilog2 x + 1)"
proof -
  let ?p = "fst (quotient_of x)" and ?q = "snd (quotient_of x)"
  let ?e0 = "bitlen ?p - bitlen ?q"
  note pq = quotient_of_pos[OF assms]
  show ?thesis
  proof (cases "2 powi ?e0 \<le> x")
    case False
    then show ?thesis by (simp add: ilog2_def Let_def)
  next
    case True
    have bp: "0 \<le> bitlen ?p" by (rule bitlen_nonneg)
    have bq: "1 \<le> bitlen ?q" using pq(2) by (simp add: bitlen_alt_def)
    have "?p < 2 ^ nat (bitlen ?p)" using bitlen_bounds[OF pq(1)] by simp
    then have "(of_int ?p :: rat) < of_int (2 ^ nat (bitlen ?p))" by (simp only: of_int_less_iff)
    then have 1: "(of_int ?p :: rat) < 2 powi (bitlen ?p)"
      using bp by (simp add: power_int_nonneg_exp)
    have "2 ^ nat (bitlen ?q - 1) \<le> ?q" using bitlen_bounds[OF pq(2)] by simp
    then have "(of_int (2 ^ nat (bitlen ?q - 1)) :: rat) \<le> of_int ?q" by (simp only: of_int_le_iff)
    then have 2: "(2::rat) powi (bitlen ?q - 1) \<le> of_int ?q"
      using bq by (simp add: power_int_nonneg_exp)
    have q0: "(0::rat) < of_int ?q" using pq(2) by simp
    have "x = of_int ?p / of_int ?q" using pq(3) by simp
    also have "\<dots> < 2 powi (bitlen ?p) / of_int ?q"
      using 1 q0 by (simp add: divide_strict_right_mono)
    also have "\<dots> \<le> 2 powi (bitlen ?p) / 2 powi (bitlen ?q - 1)"
      using 2 q0 by (intro divide_left_mono mult_pos_pos) (simp_all add: two_powi_pos less_imp_le)
    also have "\<dots> = 2 powi (?e0 + 1)"
      using two_powi_diff[of "bitlen ?p" "bitlen ?q - 1"] by (simp add: algebra_simps)
    finally show ?thesis using True by (simp add: ilog2_def Let_def)
  qed
qed

subsection \<open>Rounding to the nearest double\<close>

lemma round_even_error: "\<bar>of_int (round_even m) - m\<bar> \<le> 1 / 2"
proof -
  have r: "0 \<le> m - of_int \<lfloor>m\<rfloor>" "m - of_int \<lfloor>m\<rfloor> < 1" by linarith+
  consider "m - of_int \<lfloor>m\<rfloor> < 1 / 2" | "1 / 2 < m - of_int \<lfloor>m\<rfloor>" | "m - of_int \<lfloor>m\<rfloor> = 1 / 2"
    by linarith
  then show ?thesis
  proof cases
    case 1
    then have "round_even m = \<lfloor>m\<rfloor>" by (simp add: round_even_def Let_def)
    with r 1 show ?thesis by (simp; linarith)
  next
    case 2
    then have "round_even m = \<lfloor>m\<rfloor> + 1" by (simp add: round_even_def Let_def)
    with r 2 show ?thesis by (simp; linarith)
  next
    case 3
    then have "round_even m = \<lfloor>m\<rfloor> \<or> round_even m = \<lfloor>m\<rfloor> + 1"
      by (simp add: round_even_def Let_def)
    with 3 show ?thesis by auto
  qed
qed

lemma round_even_of_int: "round_even (of_int k) = k"
  by (simp add: round_even_def)

lemma round_even_nonneg:
  assumes "0 \<le> m"
  shows "0 \<le> round_even m"
proof -
  have "(- 1 :: rat) < of_int (round_even m)" using round_even_error[of m] assms by arith
  then have "(of_int (- 1) :: rat) < of_int (round_even m)" by simp
  then have "- 1 < round_even m" by (simp only: of_int_less_iff)
  then show ?thesis by simp
qed

lemma round_even_nonpos:
  assumes "m \<le> 0"
  shows "round_even m \<le> 0"
proof -
  have "(of_int (round_even m) :: rat) < 1" using round_even_error[of m] assms by arith
  then have "(of_int (round_even m) :: rat) < of_int 1" by simp
  then have "round_even m < 1" by (simp only: of_int_less_iff)
  then show ?thesis by simp
qed

lemma ulp_pos: "0 < ulp x"
  unfolding ulp_def by (rule two_powi_pos)

lemma min_ulp_pos: "0 < min_ulp"
  unfolding min_ulp_def by (rule two_powi_pos)

lemma min_ulp_small: "min_ulp \<le> 1 / 2 ^ 60"
proof -
  have "(2::rat) powi (- 1074) \<le> 2 powi (- 60)" by (rule power_int_increasing) simp_all
  then show ?thesis by (simp add: min_ulp_def power_int_minus_divide)
qed

lemma ulp_le:
  assumes "x \<noteq> 0"
  shows "ulp x \<le> \<bar>x\<bar> / 2 ^ 52 + min_ulp"
proof (cases "- 1074 \<le> ilog2 \<bar>x\<bar> - 52")
  case True
  then have "max (ilog2 \<bar>x\<bar> - 52) (- 1074) = ilog2 \<bar>x\<bar> - 52" by (rule max_absorb1)
  then have "ulp x = 2 powi (ilog2 \<bar>x\<bar> - 52)" by (simp only: ulp_def)
  also have "\<dots> = 2 powi (ilog2 \<bar>x\<bar>) / 2 ^ 52" using two_powi_diff[of "ilog2 \<bar>x\<bar>" 52] by simp
  also have "\<dots> \<le> \<bar>x\<bar> / 2 ^ 52" using ilog2_lower[of "\<bar>x\<bar>"] assms by (simp add: divide_right_mono)
  finally show ?thesis using min_ulp_pos by linarith
next
  case False
  then have "max (ilog2 \<bar>x\<bar> - 52) (- 1074) = - 1074" by (intro max_absorb2) simp
  then have "ulp x = min_ulp" by (simp only: ulp_def min_ulp_def)
  moreover have "0 \<le> \<bar>x\<bar> / 2 ^ 52" by simp
  ultimately show ?thesis by linarith
qed

text \<open>The rounding error is at most half a unit in the last place.\<close>

lemma nearest_double_error: "\<bar>nearest_double x - x\<bar> \<le> \<bar>x\<bar> / 2 ^ 53 + min_ulp / 2"
proof (cases "x = 0")
  case True
  then show ?thesis using min_ulp_pos by (simp add: nearest_double_def)
next
  case False
  let ?u = "ulp x"
  have u: "0 < ?u" by (rule ulp_pos)
  have "nearest_double x - x = (of_int (round_even (x / ?u)) - x / ?u) * ?u"
    using False u by (simp add: nearest_double_def algebra_simps)
  then have "\<bar>nearest_double x - x\<bar> = \<bar>of_int (round_even (x / ?u)) - x / ?u\<bar> * ?u"
    using u by (simp add: abs_mult)
  also have "\<dots> \<le> 1 / 2 * ?u"
    using round_even_error[of "x / ?u"] u by (intro mult_right_mono) simp_all
  also have "\<dots> \<le> 1 / 2 * (\<bar>x\<bar> / 2 ^ 52 + min_ulp)"
    using ulp_le[OF False] by (intro mult_left_mono) simp_all
  also have "\<dots> = \<bar>x\<bar> / 2 ^ 53 + min_ulp / 2" by simp
  finally show ?thesis .
qed

lemma nearest_double_nonneg: "0 \<le> x \<Longrightarrow> 0 \<le> nearest_double x"
  unfolding nearest_double_def
  using ulp_pos[of x] by (auto intro!: mult_nonneg_nonneg round_even_nonneg simp: less_imp_le)

lemma nearest_double_nonpos: "x \<le> 0 \<Longrightarrow> nearest_double x \<le> 0"
  unfolding nearest_double_def
  using ulp_pos[of x]
  by (auto intro!: mult_nonpos_nonneg round_even_nonpos simp: less_imp_le divide_nonpos_pos)

text \<open>An integer of at most 53 bits, scaled by a power of two, is a double.\<close>

lemma nearest_double_exact:
  assumes "\<bar>m\<bar> < 2 ^ 53" and "j \<le> 1074"
  shows "nearest_double (of_int m / 2 ^ j) = of_int m / 2 ^ j"
proof (cases "m = 0")
  case True
  then show ?thesis by (simp add: nearest_double_def)
next
  case False
  let ?x = "of_int m / 2 ^ j :: rat"
  let ?E = "max (ilog2 \<bar>?x\<bar> - 52) (- 1074)"
  have x0: "?x \<noteq> 0" using False by simp
  then have ax: "0 < \<bar>?x\<bar>" by simp
  have "(of_int \<bar>m\<bar> :: rat) < of_int (2 ^ 53)" using assms(1) by (simp only: of_int_less_iff)
  then have "\<bar>?x\<bar> < 2 ^ 53 / 2 ^ j" by (simp add: abs_divide divide_strict_right_mono)
  also have "\<dots> = 2 powi (53 - int j)" using two_powi_diff[of 53 "int j"] by simp
  finally have "2 powi (ilog2 \<bar>?x\<bar>) < (2::rat) powi (53 - int j)"
    using ilog2_lower[OF ax] by simp
  then have "ilog2 \<bar>?x\<bar> < 53 - int j" by (rule two_powi_less_imp)
  with assms(2) have E: "?E \<le> - int j" by simp
  define k where "k = nat (- int j - ?E)"
  with E have k: "int k = - int j - ?E" by simp
  have "2 powi (- int j - ?E) = (2::rat) powi (- int j) / 2 powi ?E" by (rule two_powi_diff)
  then have "(2::rat) ^ k = (1 / 2 ^ j) / 2 powi ?E"
    using k by (simp add: power_int_minus_divide flip: power_int_of_nat)
  then have q: "?x / ulp ?x = of_int (m * 2 ^ k)" by (simp add: ulp_def)
  have "nearest_double ?x = of_int (round_even (?x / ulp ?x)) * ulp ?x"
    using x0 by (simp only: nearest_double_def if_False)
  also have "\<dots> = (?x / ulp ?x) * ulp ?x" by (simp only: q round_even_of_int)
  also have "\<dots> = ?x" using ulp_pos[of ?x] by simp
  finally show ?thesis .
qed

lemma nearest_double_of_int: "\<bar>m\<bar> < 2 ^ 53 \<Longrightarrow> nearest_double (of_int m) = of_int m"
  using nearest_double_exact[of m 0] by simp

lemma nearest_double_half: "\<bar>m\<bar> < 2 ^ 53 \<Longrightarrow> nearest_double (of_int m / 2) = of_int m / 2"
  using nearest_double_exact[of m 1] by simp

subsection \<open>The result of an operation\<close>

lemma ilog2_less_iff:
  assumes "0 < y"
  shows "(ilog2 y < e) = (y < 2 powi e)"
proof
  assume "ilog2 y < e"
  then have "ilog2 y + 1 \<le> e" by simp
  then have "(2::rat) powi (ilog2 y + 1) \<le> 2 powi e" by (rule power_int_increasing) simp
  with ilog2_upper[OF assms] show "y < 2 powi e" by simp
next
  assume "y < 2 powi e"
  with ilog2_lower[OF assms] have "(2::rat) powi (ilog2 y) < 2 powi e" by simp
  then show "ilog2 y < e" by (rule two_powi_less_imp)
qed

lemma fl_cases:
  "(fl x = PosInfinity \<and> 0 < x) \<or> (fl x = NegInfinity \<and> x < 0) \<or> fl x = Num (nearest_double x)"
proof -
  have "0 < x" if "0 < nearest_double x"
  proof (rule ccontr)
    assume "\<not> 0 < x"
    then have "nearest_double x \<le> 0" by (intro nearest_double_nonpos) simp
    with that show False by simp
  qed
  moreover have "x < 0" if "nearest_double x < 0"
  proof (rule ccontr)
    assume "\<not> x < 0"
    then have "0 \<le> nearest_double x" by (intro nearest_double_nonneg) simp
    with that show False by simp
  qed
  ultimately show ?thesis unfolding fl_def Let_def by auto
qed

lemma fl_Num:
  assumes "\<bar>x\<bar> \<le> 2 ^ 62"
  shows "fl x = Num (nearest_double x)"
proof (cases "nearest_double x = 0")
  case True
  then show ?thesis by (simp add: fl_def)
next
  case False
  have m: "min_ulp / 2 \<le> 1" using min_ulp_small by simp
  have "\<bar>nearest_double x\<bar> \<le> \<bar>x\<bar> + \<bar>x\<bar> / 2 ^ 53 + min_ulp / 2"
    using nearest_double_error[of x] by linarith
  also have "\<dots> \<le> 2 ^ 62 + 2 ^ 62 / 2 ^ 53 + 1"
    using assms m by (intro add_mono divide_right_mono) simp_all
  also have "\<dots> < 2 powi 64" by simp
  finally have "\<bar>nearest_double x\<bar> < 2 powi 64" .
  moreover have "0 < \<bar>nearest_double x\<bar>" using False by simp
  ultimately have "ilog2 \<bar>nearest_double x\<bar> < 64" by (simp only: ilog2_less_iff)
  then show ?thesis using False by (simp add: fl_def Let_def)
qed

lemma fl_of_int: "\<bar>m\<bar> < 2 ^ 53 \<Longrightarrow> fl (of_int m) = Num (of_int m)"
proof -
  assume a: "\<bar>m\<bar> < 2 ^ 53"
  then have "(of_int \<bar>m\<bar> :: rat) \<le> of_int (2 ^ 62)" by (simp only: of_int_le_iff) simp
  then have "\<bar>of_int m :: rat\<bar> \<le> 2 ^ 62" by simp
  from fl_Num[OF this] a show ?thesis by (simp only: nearest_double_of_int)
qed

lemma fl_half: "\<bar>m\<bar> < 2 ^ 53 \<Longrightarrow> fl (of_int m / 2) = Num (of_int m / 2)"
proof -
  assume a: "\<bar>m\<bar> < 2 ^ 53"
  then have "(of_int \<bar>m\<bar> :: rat) \<le> of_int (2 ^ 62)" by (simp only: of_int_le_iff) simp
  then have "\<bar>of_int m / 2 :: rat\<bar> \<le> 2 ^ 62" by simp
  from fl_Num[OF this] a show ?thesis by (simp only: nearest_double_half)
qed

lemma fl_zero: "fl 0 = Num 0"
proof -
  have "fl (of_int 0) = Num (of_int 0)" by (rule fl_of_int) simp
  then show ?thesis by simp
qed

text \<open>Bounds on the result of an operation from bounds on its exact value.\<close>

lemma fl_nonneg:
  assumes "0 \<le> x"
  shows "fl x = PosInfinity \<or> (\<exists>y. fl x = Num y \<and> 0 \<le> y)"
  using fl_cases[of x] assms nearest_double_nonneg[of x] by auto

lemma fl_nonpos:
  assumes "x \<le> 0"
  shows "fl x = NegInfinity \<or> (\<exists>y. fl x = Num y \<and> y \<le> 0)"
  using fl_cases[of x] assms nearest_double_nonpos[of x] by auto

lemma fl_ge:
  assumes "0 \<le> a" and "a \<le> x"
  shows "fl x = PosInfinity \<or> (\<exists>y. fl x = Num y \<and> a - a / 2 ^ 53 - min_ulp / 2 \<le> y)"
proof -
  have x: "0 \<le> x" using assms by simp
  have "a / 2 ^ 53 \<le> x / 2 ^ 53" using assms(2) by (rule divide_right_mono) simp
  moreover have "a * (1 - 1 / 2 ^ 53) \<le> x * (1 - 1 / 2 ^ 53)"
    using assms(2) by (rule mult_right_mono) simp
  then have "a - a / 2 ^ 53 \<le> x - x / 2 ^ 53" by (simp add: algebra_simps)
  moreover have "x - x / 2 ^ 53 - min_ulp / 2 \<le> nearest_double x"
    using nearest_double_error[of x] x by (simp only: abs_of_nonneg)
  ultimately have "a - a / 2 ^ 53 - min_ulp / 2 \<le> nearest_double x" by linarith
  then show ?thesis using fl_cases[of x] x by auto
qed

lemma fl_le:
  assumes "x \<le> a" and "0 \<le> a" and "a \<le> 2 ^ 62"
  shows "fl x = NegInfinity \<or> (\<exists>y. fl x = Num y \<and> y \<le> a + a / 2 ^ 53 + min_ulp / 2)"
proof (cases "0 \<le> x")
  case True
  then have "\<bar>x\<bar> \<le> 2 ^ 62" using assms by simp
  then have f: "fl x = Num (nearest_double x)" by (rule fl_Num)
  have "x / 2 ^ 53 \<le> a / 2 ^ 53" using assms(1) by (rule divide_right_mono) simp
  moreover have "nearest_double x \<le> x + x / 2 ^ 53 + min_ulp / 2"
    using nearest_double_error[of x] True by (simp only: abs_of_nonneg)
  ultimately have "nearest_double x \<le> a + a / 2 ^ 53 + min_ulp / 2" using assms(1) by linarith
  with f show ?thesis by simp
next
  case False
  then have "x \<le> 0" by simp
  from fl_nonpos[OF this] show ?thesis
  proof
    assume "fl x = NegInfinity"
    then show ?thesis by simp
  next
    assume "\<exists>y. fl x = Num y \<and> y \<le> 0"
    then obtain y where y: "fl x = Num y" "y \<le> 0" by blast
    have "0 \<le> a / 2 ^ 53" using assms(2) by simp
    with y(2) assms(2) min_ulp_pos have "y \<le> a + a / 2 ^ 53 + min_ulp / 2" by linarith
    with y(1) show ?thesis by simp
  qed
qed

lemma fl_near:
  assumes "\<bar>x\<bar> \<le> 1024"
  shows "\<exists>y. fl x = Num y \<and> \<bar>y - x\<bar> \<le> 1 / 2 ^ 42 \<and> (0 \<le> x \<longrightarrow> 0 \<le> y)"
proof -
  have "\<bar>x\<bar> \<le> 2 ^ 62" using assms by simp
  then have f: "fl x = Num (nearest_double x)" by (rule fl_Num)
  have "\<bar>x\<bar> / 2 ^ 53 \<le> 1024 / 2 ^ 53" using assms by (rule divide_right_mono) simp
  then have a: "\<bar>x\<bar> / 2 ^ 53 \<le> 1 / 2 ^ 43" by simp
  have b: "min_ulp / 2 \<le> 1 / 2 ^ 61" using min_ulp_small by simp
  have c: "(1 / 2 ^ 43 + 1 / 2 ^ 61 :: rat) \<le> 1 / 2 ^ 42" by simp
  have "\<bar>nearest_double x - x\<bar> \<le> 1 / 2 ^ 42"
    using nearest_double_error[of x] a b c by linarith
  then show ?thesis using f nearest_double_nonneg[of x] by simp
qed

section \<open>Properties of the analysis\<close>

subsection \<open>Rounding and percentages\<close>

lemma rhu_upper: "of_int (round_half_up x) \<le> x + 1 / 2"
  unfolding round_half_up_def by (rule of_int_floor_le)

lemma rhu_lower: "x - 1 / 2 < of_int (round_half_up x)"
  unfolding round_half_up_def using floor_correct[of "x + 1 / 2"] by linarith

lemma rhu_of_int_half: "round_half_up (of_int m / 2) = (m + 1) div 2"
proof -
  have "(of_int m / 2 + 1 / 2 :: rat) = of_int (m + 1) / of_int 2" by simp
  then show ?thesis unfolding round_half_up_def by (simp only: floor_divide_of_int_eq)
qed

lemma rhu_nonneg: "0 \<le> x \<Longrightarrow> 0 \<le> round_half_up x"
  unfolding round_half_up_def by simp

lemma Interest_percentage: "Interest cm n = percentage (length cm) n"
  by (simp add: Interest_def percentage_def)

text \<open>
  \<open>Math.round((c / n) * 100)\<close> for \<open>c \<le> n\<close>: the quotient and the product are each rounded
  to a double, and the result is an integer within \<open>3/4\<close> of the exact percentage.
\<close>

lemma percentage_bound:
  assumes "0 < n" and "c \<le> n"
  shows "\<exists>i. percentage c n = Num (of_int i) \<and> 0 \<le> i
           \<and> \<bar>of_int i - of_nat c / of_nat n * 100 :: rat\<bar> \<le> 3 / 4"
proof -
  let ?q = "of_nat c / of_nat n :: rat"
  have q0: "0 \<le> ?q" by simp
  have "(of_nat c :: rat) \<le> of_nat n" using assms(2) by simp
  then have q1: "?q \<le> 1" using assms(1) by (simp add: divide_le_eq)
  have "\<bar>?q\<bar> \<le> 1024" using q0 q1 by simp
  from fl_near[OF this] q0 obtain y1 where
    y1: "fl ?q = Num y1" "\<bar>y1 - ?q\<bar> \<le> 1 / 2 ^ 42" "0 \<le> y1" by blast
  have d: "js_div (js_of_nat c) (js_of_nat n) = Num y1"
    using assms(1) y1(1) by (simp add: js_of_nat_def)
  have s: "(1 / 2 ^ 42 :: rat) \<le> 1 / 1000" by simp
  have "y1 \<le> 2" using y1(2) q1 s by linarith
  with y1(3) have "\<bar>y1 * 100\<bar> \<le> 1024" by (simp add: abs_mult)
  from fl_near[OF this] y1(3) obtain y2 where
    y2: "fl (y1 * 100) = Num y2" "\<bar>y2 - y1 * 100\<bar> \<le> 1 / 2 ^ 42" "0 \<le> y2" by auto
  let ?i = "round_half_up y2"
  have "percentage c n = Num (of_int ?i)" by (simp add: percentage_def d y2(1))
  moreover have "0 \<le> ?i" using y2(3) by (rule rhu_nonneg)
  moreover have "\<bar>of_int ?i - ?q * 100\<bar> \<le> 3 / 4"
    using rhu_upper[of y2] rhu_lower[of y2] y1(2) y2(2) s by linarith
  ultimately show ?thesis by blast
qed

lemma share_add:
  "(of_nat c1 / of_nat n * 100 + of_nat c2 / of_nat n * 100 :: rat) = of_nat (c1 + c2) / of_nat n * 100"
  by (simp add: add_divide_distrib distrib_right)

lemma share_le:
  assumes "0 < n" "c \<le> n"
  shows "(of_nat c / of_nat n * 100 :: rat) \<le> 100"
proof -
  have "(of_nat c :: rat) \<le> of_nat n" using assms by simp
  then have "(of_nat c / of_nat n :: rat) \<le> 1" using assms by (simp add: divide_le_eq)
  then have "(of_nat c / of_nat n :: rat) * 100 \<le> 1 * 100" by (rule mult_right_mono) simp
  then show ?thesis by simp
qed

lemma pct_sum_upper:
  assumes "0 < n" and "c1 + c2 \<le> n"
    and "\<bar>of_int i1 - of_nat c1 / of_nat n * 100 :: rat\<bar> \<le> 3 / 4"
    and "\<bar>of_int i2 - of_nat c2 / of_nat n * 100 :: rat\<bar> \<le> 3 / 4"
  shows "i1 + i2 \<le> 101"
proof -
  let ?x = "of_nat c1 / of_nat n * 100 :: rat" and ?y = "of_nat c2 / of_nat n * 100 :: rat"
  have "?x + ?y \<le> 100" unfolding share_add using assms(1,2) by (rule share_le)
  then have "(of_int i1 + of_int i2 :: rat) < 102" using assms(3,4) by linarith
  then have "(of_int (i1 + i2) :: rat) < of_int 102" by simp
  then have "i1 + i2 < 102" by (simp only: of_int_less_iff)
  then show ?thesis by simp
qed

lemma pct_sum_lower:
  assumes "0 < n" and "c1 + c2 = n"
    and "\<bar>of_int i1 - of_nat c1 / of_nat n * 100 :: rat\<bar> \<le> 3 / 4"
    and "\<bar>of_int i2 - of_nat c2 / of_nat n * 100 :: rat\<bar> \<le> 3 / 4"
  shows "99 \<le> i1 + i2"
proof -
  let ?x = "of_nat c1 / of_nat n * 100 :: rat" and ?y = "of_nat c2 / of_nat n * 100 :: rat"
  have "?x + ?y = 100" unfolding share_add using assms(1,2) by simp
  then have "(98 :: rat) < of_int i1 + of_int i2" using assms(3,4) by linarith
  then have "(of_int 98 :: rat) < of_int (i1 + i2)" by simp
  then have "98 < i1 + i2" by (simp only: of_int_less_iff)
  then show ?thesis by simp
qed

text \<open>On small integers the operations of the compatibility score are exact.\<close>

lemma js_sub_int:
  assumes "\<bar>a - b\<bar> < 2 ^ 53"
  shows "js_sub (Num (of_int a)) (Num (of_int b)) = Num (of_int (a - b))"
proof -
  have "fl (of_int (a - b)) = Num (of_int (a - b))" using assms by (rule fl_of_int)
  then show ?thesis by (simp add: js_sub_def)
qed

lemma js_add_int:
  assumes "\<bar>a + b\<bar> < 2 ^ 53"
  shows "js_add (Num (of_int a)) (Num (of_int b)) = Num (of_int (a + b))"
proof -
  have "fl (of_int (a + b)) = Num (of_int (a + b))" using assms by (rule fl_of_int)
  then show ?thesis by simp
qed

lemma js_half_int:
  assumes "\<bar>m\<bar> < 2 ^ 53"
  shows "js_div (Num (of_int m)) (Num 2) = Num (of_int m / 2)"
  using fl_half[OF assms] by simp

lemma compatibility_eq:
  assumes "\<bar>a\<bar> \<le> 1000" and "\<bar>b\<bar> \<le> 1000"
  shows "compatibility (Num (of_int a)) (Num (of_int b))
           = Num (of_int ((min a b + (100 - \<bar>a - b\<bar>) + 1) div 2))"
proof -
  have 1: "js_sub (Num (of_int a)) (Num (of_int b)) = Num (of_int (a - b))"
    using assms by (intro js_sub_int) simp
  have 2: "Math_abs (Num (of_int (a - b))) = Num (of_int \<bar>a - b\<bar>)" by simp
  have "js_sub (Num (of_int 100)) (Num (of_int \<bar>a - b\<bar>)) = Num (of_int (100 - \<bar>a - b\<bar>))"
    using assms by (intro js_sub_int) simp
  then have 3: "js_sub (Num 100) (Num (of_int \<bar>a - b\<bar>)) = Num (of_int (100 - \<bar>a - b\<bar>))" by simp
  have 4: "Math_min (Num (of_int a)) (Num (of_int b)) = Num (of_int (min a b))"
    by (simp add: min_def)
  have 5: "js_add (Num (of_int (min a b))) (Num (of_int (100 - \<bar>a - b\<bar>)))
             = Num (of_int (min a b + (100 - \<bar>a - b\<bar>)))"
    using assms by (intro js_add_int) simp
  have 6: "js_div (Num (of_int (min a b + (100 - \<bar>a - b\<bar>)))) (Num 2)
             = Num (of_int (min a b + (100 - \<bar>a - b\<bar>)) / 2)"
    using assms by (intro js_half_int) simp
  show ?thesis
    unfolding compatibility_def Let_def
    by (simp only: 1 2 3 4 5 6 Math_round.simps rhu_of_int_half)
qed

lemma compat_range:
  fixes a b :: int
  assumes "0 \<le> a" "0 \<le> b" "a + b \<le> 101"
  shows "0 \<le> (min a b + (100 - \<bar>a - b\<bar>) + 1) div 2"
    and "(min a b + (100 - \<bar>a - b\<bar>) + 1) div 2 \<le> 75"
  using assms by (auto simp: min_def abs_if)

text \<open>Two percentages that are evaluated below: one of two, and one of three.\<close>

lemma percentage_values:
  "percentage (Suc 0) 2 = Num 50" "percentage (Suc 0) 3 = Num 33"
  by code_simp+

lemma compatibility_half: "compatibility (Num 50) (Num 50) = Num 75"
  using compatibility_eq[of 50 50] by simp

subsection \<open>Contacts and the shape of the result\<close>

lemma set_foldl_Set_add: "set (foldl Set_add acc xs) = set acc \<union> set xs"
  by (induction xs arbitrary: acc) (auto simp: Set_add_def)

lemma distinct_foldl_Set_add: "distinct acc \<Longrightarrow> distinct (foldl Set_add acc xs)"
  by (induction xs arbitrary: acc) (auto simp: Set_add_def)

lemma foldl_Set_add_prefix: "\<exists>ys. foldl Set_add acc xs = acc @ ys"
proof (induction xs arbitrary: acc)
  case Nil
  then show ?case by simp
next
  case (Cons x xs)
  from Cons.IH[of "Set_add acc x"] obtain ys
    where h: "foldl Set_add (Set_add acc x) xs = Set_add acc x @ ys" ..
  have "Set_add acc x = acc \<or> Set_add acc x = acc @ [x]" by (simp add: Set_add_def)
  with h show ?case by auto
qed

lemma set_contacts_of: "set (contacts_of ms) = contact ` set ms"
  by (simp add: contacts_of_def new_Set_def set_foldl_Set_add)

lemma distinct_contacts_of: "distinct (contacts_of ms)"
  by (simp add: contacts_of_def new_Set_def distinct_foldl_Set_add)

lemma contact1_of_hd: "ms \<noteq> [] \<Longrightarrow> contact1_of ms = Some (contact (hd ms))"
proof -
  assume "ms \<noteq> []"
  then obtain m rest where ms: "ms = m # rest" by (cases ms) auto
  from foldl_Set_add_prefix[of "[contact m]" "map contact rest"]
  obtain ys where "contacts_of ms = contact m # ys"
    by (auto simp: ms contacts_of_def new_Set_def Set_add_def)
  then show ?thesis by (simp add: contact1_of_def elem_at_def ms)
qed

lemma contact1_neq_contact2: "ms \<noteq> [] \<Longrightarrow> contact1_of ms \<noteq> contact2_of ms"
proof -
  assume ne: "ms \<noteq> []"
  have d: "distinct (contacts_of ms)" by (rule distinct_contacts_of)
  show ?thesis
  proof (cases "contacts_of ms" rule: remdups_adj.cases)
    case 1
    then show ?thesis using contact1_of_hd[OF ne] by (simp add: contact1_of_def elem_at_def)
  next
    case (2 a)
    then show ?thesis by (simp add: contact1_of_def contact2_of_def elem_at_def)
  next
    case (3 a b rest)
    then show ?thesis using d by (simp add: contact1_of_def contact2_of_def elem_at_def)
  qed
qed

lemma two_contacts_cover:
  assumes "length (contacts_of ms) \<le> 2" and "m \<in> set ms"
  shows "Some (contact m) = contact1_of ms \<or> Some (contact m) = contact2_of ms"
proof -
  from assms(2) have "contact m \<in> set (contacts_of ms)" by (simp add: set_contacts_of)
  then obtain i where i: "i < length (contacts_of ms)" "contacts_of ms ! i = contact m"
    by (auto simp: in_set_conv_nth)
  with assms(1) have "i = 0 \<or> i = 1" by auto
  with i show ?thesis by (auto simp: contact1_of_def contact2_of_def elem_at_def)
qed

lemma count_disjoint:
  "c1 \<noteq> c2 \<Longrightarrow> length (messages_of c1 ms) + length (messages_of c2 ms) \<le> length ms"
  unfolding messages_of_def by (induction ms) auto

lemma count_partition:
  "c1 \<noteq> c2 \<Longrightarrow> \<forall>m \<in> set ms. Some (contact m) = c1 \<or> Some (contact m) = c2 \<Longrightarrow>
   length (messages_of c1 ms) + length (messages_of c2 ms) = length ms"
  unfolding messages_of_def by (induction ms) auto

lemma set_insert_by: "set (insert_by cmp x ys) = insert x (set ys)"
  by (induction ys) auto

lemma set_stable_sort: "set (stable_sort cmp xs) = set xs"
  unfolding stable_sort_def by (induction xs) (auto simp: set_insert_by)

lemma length_insert_by: "length (insert_by cmp x ys) = Suc (length ys)"
  by (induction ys) auto

lemma length_stable_sort: "length (stable_sort cmp xs) = length xs"
  unfolding stable_sort_def by (induction xs) (auto simp: length_insert_by)

text \<open>Whatever ranks the host gives, its order is a rearrangement of the array.\<close>

lemma host_order_ranks: "map snd (zip (ranks @ replicate (length xs) 0) xs) = xs"
  by (simp add: map_snd_zip_take)

lemma set_host_order: "set (host_order ranks xs) = set xs"
proof -
  let ?zs = "zip (ranks @ replicate (length xs) 0) xs"
  have "set (host_order ranks xs) = snd ` set (sort_key fst ?zs)" by (simp add: host_order_def)
  also have "\<dots> = set (map snd ?zs)" by simp
  finally show ?thesis by (simp only: host_order_ranks)
qed

lemma length_host_order: "length (host_order ranks xs) = length xs"
proof -
  let ?zs = "zip (ranks @ replicate (length xs) 0) xs"
  have "length (host_order ranks xs) = length (map snd ?zs)" by (simp add: host_order_def)
  then show ?thesis by (simp only: host_order_ranks)
qed

text \<open>
  Every rearrangement is the order of some ranks: the ranks 1, 2, 3, 0, for one, move the
  last of four elements to the front.
\<close>

lemma host_order_last_first: "host_order [1, 2, 3, 0] [b, a, c, d] = [d, b, a, c]"
  by (simp add: host_order_def)

lemma set_sortedMessages_of: "set (sortedMessages_of h ms) = set ms"
  by (simp add: sortedMessages_of_def Let_def set_stable_sort set_host_order)

lemma length_sortedMessages_of: "length (sortedMessages_of h ms) = length ms"
  by (simp add: sortedMessages_of_def Let_def length_stable_sort length_host_order)

lemma responseTimes_loop_from:
  "\<forall>m \<in> set (p # ms). contact m \<in> dom rt \<Longrightarrow> \<exists>rt'. responseTimes_loop (p # ms) rt = Inr rt'"
proof (induction ms arbitrary: p rt)
  case Nil
  then show ?case by simp
next
  case (Cons c rest)
  from Cons.prems obtain ts where ts: "rt (contact c) = Some ts" by auto
  have a: "\<exists>rt'. responseTimes_loop (c # rest) rt = Inr rt'"
    by (rule Cons.IH) (use Cons.prems in auto)
  have b: "\<exists>rt'. responseTimes_loop (c # rest) (rt(contact c \<mapsto> v)) = Inr rt'" for v
    by (rule Cons.IH) (use Cons.prems in auto)
  show ?case using a b ts by (simp add: Let_def)
qed

lemma responseTimes_loop_ok:
  "\<forall>m \<in> set ms. contact m \<in> dom rt \<Longrightarrow> \<exists>rt'. responseTimes_loop ms rt = Inr rt'"
  by (cases ms) (simp_all only: responseTimes_loop.simps responseTimes_loop_from, simp)

lemma responseTimes_loop_dom_from:
  "responseTimes_loop (p # ms) rt = Inr rt' \<Longrightarrow> dom rt' = dom rt"
proof (induction ms arbitrary: p rt)
  case Nil
  then show ?case by simp
next
  case (Cons c rest)
  show ?case
  proof (cases "responseTimes_loop (c # rest) rt = Inr rt'")
    case True
    then show ?thesis by (rule Cons.IH)
  next
    case False
    with Cons.prems obtain ts v where ts: "rt (contact c) = Some ts"
      and l: "responseTimes_loop (c # rest) (rt(contact c \<mapsto> v)) = Inr rt'"
      by (auto simp: Let_def split: if_splits option.splits)
    from ts have "dom (rt(contact c \<mapsto> v)) = dom rt" by auto
    with Cons.IH[OF l] show ?thesis by (rule trans)
  qed
qed

lemma responseTimes_loop_dom: "responseTimes_loop ms rt = Inr rt' \<Longrightarrow> dom rt' = dom rt"
proof (cases ms)
  case Nil
  assume "responseTimes_loop ms rt = Inr rt'"
  with Nil show ?thesis by simp
next
  case (Cons p rest)
  assume "responseTimes_loop ms rt = Inr rt'"
  with Cons show ?thesis by (simp only: responseTimes_loop_dom_from)
qed

lemma key_Some: "key (Some c) = c"
  by (simp add: key_def)

lemma analysis_returns:
  assumes "ms \<noteq> []" and "length (contacts_of ms) \<le> 2"
  shows "\<exists>r. analysis h ms = Inr (Some r)"
proof -
  have "\<forall>m \<in> set (sortedMessages_of h ms).
          contact m \<in> dom [key (contact1_of ms) \<mapsto> ([]::jsnum list), key (contact2_of ms) \<mapsto> []]"
  proof
    fix m assume "m \<in> set (sortedMessages_of h ms)"
    then have "m \<in> set ms" by (simp only: set_sortedMessages_of)
    from two_contacts_cover[OF assms(2) this]
    have "key (contact1_of ms) = contact m \<or> key (contact2_of ms) = contact m"
      by (metis key_Some)
    then show "contact m \<in> dom [key (contact1_of ms) \<mapsto> ([]::jsnum list), key (contact2_of ms) \<mapsto> []]"
      by auto
  qed
  from responseTimes_loop_ok[OF this] obtain rt' where
    "responseTimes_loop (sortedMessages_of h ms) [key (contact1_of ms) \<mapsto> [], key (contact2_of ms) \<mapsto> []] = Inr rt'" ..
  then show ?thesis using assms(1) by (simp add: analysis_def Let_def)
qed

lemma analysis_fields:
  assumes "analysis h ms = Inr (Some r)"
  shows "ms \<noteq> []"
    and "totalMessages r = length ms"
    and "contacts r = (contact1_of ms, contact2_of ms)"
    and "messageCounts r = [key (contact1_of ms) \<mapsto> length (messages_of (contact1_of ms) ms),
                            key (contact2_of ms) \<mapsto> length (messages_of (contact2_of ms) ms)]"
    and "interestLevels r = [key (contact1_of ms) \<mapsto> Interest (messages_of (contact1_of ms) ms) (length ms),
                             key (contact2_of ms) \<mapsto> Interest (messages_of (contact2_of ms) ms) (length ms)]"
    and "compatibilityScore r = compatibility (Interest (messages_of (contact1_of ms) ms) (length ms))
                                              (Interest (messages_of (contact2_of ms) ms) (length ms))"
    and "redFlags r = redFlags_of h ms"
    and "conversationStarters r = conversationStarters_of (contact1_of ms) (contact2_of ms) (sortedMessages_of h ms)"
    and "weekend r = fst (weekend_weekday_of h (contact1_of ms) (contact2_of ms) ms)"
    and "weekday r = snd (weekend_weekday_of h (contact1_of ms) (contact2_of ms) ms)"
    and "avgMessageLength r = [key (contact1_of ms) \<mapsto> Math_round (AvgLength (messages_of (contact1_of ms) ms)),
                               key (contact2_of ms) \<mapsto> Math_round (AvgLength (messages_of (contact2_of ms) ms))]"
    and "communicationStyles r = [key (contact1_of ms) \<mapsto> getCommunicationStyle h (messages_of (contact1_of ms) ms),
                               key (contact2_of ms) \<mapsto> getCommunicationStyle h (messages_of (contact2_of ms) ms)]"
  using assms unfolding analysis_def Let_def
  by (auto split: if_splits sum.splits)

lemma count_le: "length (messages_of c ms) \<le> length ms"
  by (simp add: messages_of_def)

lemma two_party_facts:
  "two_party_chat \<noteq> []" "length (contacts_of two_party_chat) \<le> 2"
  "key (contact1_of two_party_chat) \<noteq> key (contact2_of two_party_chat)"
  by (simp add: two_party_chat_def, code_simp, code_simp)

lemma analysis_returns_if:
  assumes "ms \<noteq> []"
    and "\<not> isl (responseTimes_loop (sortedMessages_of h ms)
                  [key (contact1_of ms) \<mapsto> [], key (contact2_of ms) \<mapsto> []])"
  shows "\<exists>r. analysis h ms = Inr (Some r)"
  using assms unfolding analysis_def Let_def by (auto split: sum.splits)

lemma result_eq: "analysis h ms = Inr (Some r) \<Longrightarrow> result (analysis h ms) = r"
  by (simp add: result_def)

lemma returns_eq: "analysis h ms = Inr (Some r) \<Longrightarrow> returns (analysis h ms)"
  by (simp add: returns_def)

lemma group_chat_contacts:
  "contact1_of group_chat = Some (of_ascii ''Alice'')"
  "contact2_of group_chat = Some (of_ascii ''Bob'')"
  by code_simp+

lemma group_chat_counts:
  "length (messages_of (Some (of_ascii ''Alice'')) group_chat) = 1"
  "length (messages_of (Some (of_ascii ''Bob'')) group_chat) = 1"
  "length group_chat = 3"
  by code_simp+

subsection \<open>Message counts and interest levels\<close>

lemma Interest_bound:
  assumes "ms \<noteq> []"
  shows "\<exists>i. Interest (messages_of c ms) (length ms) = Num (of_int i) \<and> 0 \<le> i
           \<and> \<bar>of_int i - of_nat (length (messages_of c ms)) / of_nat (length ms) * 100 :: rat\<bar>
               \<le> 3 / 4"
  unfolding Interest_percentage
  using assms by (intro percentage_bound count_le) simp

text \<open>
  C7, as amended. For a non-empty sequence with at most two distinct contacts whose two
  property names differ (with a single contact the second name is \<open>undefined\<close>), the
  analysis returns a result in which the two per-contact message counts add up to the
  total message count and the two interest levels add up to a number within 1 of 100.
\<close>

theorem counts_and_interest_sum:
  assumes "messages \<noteq> []"
    and "length (contacts_of messages) \<le> 2"
    and "key (contact1_of messages) \<noteq> key (contact2_of messages)"
  shows "\<exists>r n1 n2 i1 i2.
           analysis h messages = Inr (Some r)
         \<and> messageCounts r (key (contact1_of messages)) = Some n1
         \<and> messageCounts r (key (contact2_of messages)) = Some n2
         \<and> n1 + n2 = totalMessages r \<and> totalMessages r = length messages
         \<and> interestLevels r (key (contact1_of messages)) = Some (Num (of_int i1))
         \<and> interestLevels r (key (contact2_of messages)) = Some (Num (of_int i2))
         \<and> 99 \<le> i1 + i2 \<and> i1 + i2 \<le> 101"
proof -
  let ?c1 = "contact1_of messages" and ?c2 = "contact2_of messages"
  let ?n1 = "length (messages_of ?c1 messages)" and ?n2 = "length (messages_of ?c2 messages)"
  let ?n = "length messages"
  from analysis_returns[OF assms(1,2)] obtain r where r: "analysis h messages = Inr (Some r)" ..
  have n: "0 < ?n" using assms(1) by simp
  have ne: "?c1 \<noteq> ?c2" using assms(1) by (rule contact1_neq_contact2)
  have cover: "\<forall>m \<in> set messages. Some (contact m) = ?c1 \<or> Some (contact m) = ?c2"
    using two_contacts_cover[OF assms(2)] by blast
  have sum: "?n1 + ?n2 = ?n" using ne cover by (rule count_partition)
  from Interest_bound[OF assms(1), of ?c1] obtain i1 where
    i1: "Interest (messages_of ?c1 messages) ?n = Num (of_int i1)"
        "\<bar>of_int i1 - of_nat ?n1 / of_nat ?n * 100 :: rat\<bar> \<le> 3 / 4" by blast
  from Interest_bound[OF assms(1), of ?c2] obtain i2 where
    i2: "Interest (messages_of ?c2 messages) ?n = Num (of_int i2)"
        "\<bar>of_int i2 - of_nat ?n2 / of_nat ?n * 100 :: rat\<bar> \<le> 3 / 4" by blast
  have "?n1 + ?n2 \<le> ?n" using sum by simp
  with n have up: "i1 + i2 \<le> 101" using i1(2) i2(2) by (rule pct_sum_upper)
  have low: "99 \<le> i1 + i2" using n sum i1(2) i2(2) by (rule pct_sum_lower)
  have "messageCounts r (key ?c1) = Some ?n1" "messageCounts r (key ?c2) = Some ?n2"
    using assms(3) by (simp_all add: analysis_fields(4)[OF r])
  moreover have "interestLevels r (key ?c1) = Some (Num (of_int i1))"
    "interestLevels r (key ?c2) = Some (Num (of_int i2))"
    using assms(3) by (simp_all add: analysis_fields(5)[OF r] i1(1) i2(1))
  moreover note sum analysis_fields(2)[OF r] r up low
  ultimately show ?thesis by (intro exI[of _ r] exI[of _ ?n1] exI[of _ ?n2] exI[of _ i1] exI[of _ i2]) simp
qed

theorem counts_and_interest_sum_witness:
  "\<exists>r n1 n2 i1 i2.
     analysis ascii_utc_host two_party_chat = Inr (Some r)
   \<and> messageCounts r (key (contact1_of two_party_chat)) = Some n1
   \<and> messageCounts r (key (contact2_of two_party_chat)) = Some n2
   \<and> n1 + n2 = totalMessages r \<and> totalMessages r = length two_party_chat
   \<and> interestLevels r (key (contact1_of two_party_chat)) = Some (Num (of_int i1))
   \<and> interestLevels r (key (contact2_of two_party_chat)) = Some (Num (of_int i2))
   \<and> 99 \<le> i1 + i2 \<and> i1 + i2 \<le> 101"
  by (rule counts_and_interest_sum[OF two_party_facts])

text \<open>
  With a third contact the claim fails: the analysis of \<open>group_chat\<close> returns, counts
  one message each for Alice and Bob out of three, and the interest levels are 33 and 33.
\<close>

theorem group_chat_counts_counterexample:
  "returns (analysis ascii_utc_host group_chat)
   \<and> messageCounts (result (analysis ascii_utc_host group_chat)) (of_ascii ''Alice'') = Some 1
   \<and> messageCounts (result (analysis ascii_utc_host group_chat)) (of_ascii ''Bob'') = Some 1
   \<and> totalMessages (result (analysis ascii_utc_host group_chat)) = 3
   \<and> interestLevels (result (analysis ascii_utc_host group_chat)) (of_ascii ''Alice'') = Some (Num 33)
   \<and> interestLevels (result (analysis ascii_utc_host group_chat)) (of_ascii ''Bob'') = Some (Num 33)"
proof -
  have "group_chat \<noteq> []" by (simp add: group_chat_def)
  moreover have "\<not> isl (responseTimes_loop (sortedMessages_of ascii_utc_host group_chat)
      [key (contact1_of group_chat) \<mapsto> [], key (contact2_of group_chat) \<mapsto> []])"
    by code_simp
  ultimately obtain r where r: "analysis ascii_utc_host group_chat = Inr (Some r)"
    using analysis_returns_if by blast
  have ne: "of_ascii ''Alice'' \<noteq> of_ascii ''Bob''" by code_simp
  show ?thesis
    unfolding result_eq[OF r]
    using ne returns_eq[OF r]
    by (simp add: analysis_fields(2,4,5)[OF r] group_chat_contacts key_Some group_chat_counts
        Interest_percentage percentage_values)
qed

subsection \<open>The compatibility score\<close>

lemma two_party_contacts:
  "contact1_of two_party_chat = Some (of_ascii ''Alice'')"
  "contact2_of two_party_chat = Some (of_ascii ''Bob'')"
  by code_simp+

lemma two_party_counts:
  "length (messages_of (Some (of_ascii ''Alice'')) two_party_chat) = 1"
  "length (messages_of (Some (of_ascii ''Bob'')) two_party_chat) = 1"
  "length two_party_chat = 2"
  by code_simp+

lemma two_party_interest:
  "Interest (messages_of (contact1_of two_party_chat) two_party_chat) (length two_party_chat) = Num 50"
  "Interest (messages_of (contact2_of two_party_chat) two_party_chat) (length two_party_chat) = Num 50"
  by (simp_all add: two_party_contacts two_party_counts Interest_percentage percentage_values)

text \<open>
  C2. For every non-empty message sequence the compatibility score
  \<open>round((min(interest1, interest2) + (100 - abs(interest1 - interest2))) / 2)\<close> of a result
  is an integer in \<open>[0, 100]\<close>, and it is 100 only when both interest levels are 50. More
  precisely the score is at most 75, the value it has when both interest levels are 50.
  The analysis does return a result when there are at most two distinct contacts.
\<close>

theorem compatibility_range:
  assumes "messages \<noteq> []"
  shows "(length (contacts_of messages) \<le> 2 \<longrightarrow> (\<exists>r. analysis h messages = Inr (Some r)))
       \<and> (\<forall>r. analysis h messages = Inr (Some r) \<longrightarrow>
            (\<exists>k. compatibilityScore r = Num (of_int k) \<and> 0 \<le> k \<and> k \<le> 100
               \<and> (compatibilityScore r = Num 100 \<longrightarrow>
                    Interest (messages_of (contact1_of messages) messages) (length messages) = Num 50
                  \<and> Interest (messages_of (contact2_of messages) messages) (length messages) = Num 50)
               \<and> k \<le> 75
               \<and> (Interest (messages_of (contact1_of messages) messages) (length messages) = Num 50
                  \<and> Interest (messages_of (contact2_of messages) messages) (length messages) = Num 50
                  \<longrightarrow> k = 75)))"
proof (intro conjI impI allI)
  assume "length (contacts_of messages) \<le> 2"
  with assms show "\<exists>r. analysis h messages = Inr (Some r)" by (rule analysis_returns)
next
  fix r assume r: "analysis h messages = Inr (Some r)"
  let ?c1 = "contact1_of messages" and ?c2 = "contact2_of messages"
  let ?n1 = "length (messages_of ?c1 messages)" and ?n2 = "length (messages_of ?c2 messages)"
  let ?n = "length messages"
  have n: "0 < ?n" using assms by simp
  have "?c1 \<noteq> ?c2" using assms by (rule contact1_neq_contact2)
  then have le: "?n1 + ?n2 \<le> ?n" by (rule count_disjoint)
  from Interest_bound[OF assms, of ?c1] obtain a where
    a: "Interest (messages_of ?c1 messages) ?n = Num (of_int a)" "0 \<le> a"
       "\<bar>of_int a - of_nat ?n1 / of_nat ?n * 100 :: rat\<bar> \<le> 3 / 4" by blast
  from Interest_bound[OF assms, of ?c2] obtain b where
    b: "Interest (messages_of ?c2 messages) ?n = Num (of_int b)" "0 \<le> b"
       "\<bar>of_int b - of_nat ?n2 / of_nat ?n * 100 :: rat\<bar> \<le> 3 / 4" by blast
  let ?k = "(min a b + (100 - \<bar>a - b\<bar>) + 1) div 2"
  have ab: "a + b \<le> 101" using n le a(3) b(3) by (rule pct_sum_upper)
  have "\<bar>a\<bar> \<le> 1000" "\<bar>b\<bar> \<le> 1000" using a(2) b(2) ab by simp_all
  then have "compatibility (Num (of_int a)) (Num (of_int b)) = Num (of_int ?k)"
    by (rule compatibility_eq)
  then have score: "compatibilityScore r = Num (of_int ?k)"
    by (simp only: analysis_fields(6)[OF r] a(1) b(1))
  have k0: "0 \<le> ?k" and k75: "?k \<le> 75" using compat_range[OF a(2) b(2) ab] by simp_all
  have not100: "compatibilityScore r \<noteq> Num 100"
  proof
    assume "compatibilityScore r = Num 100"
    with score have "(of_int ?k :: rat) = of_int 100" by simp
    then have "?k = 100" by (simp only: of_int_eq_iff)
    with k75 show False by simp
  qed
  have "?k = 75"
    if "Interest (messages_of ?c1 messages) ?n = Num 50 \<and> Interest (messages_of ?c2 messages) ?n = Num 50"
  proof -
    from that have "compatibilityScore r = Num 75"
      by (simp add: analysis_fields(6)[OF r] compatibility_half)
    with score have "(of_int ?k :: rat) = of_int 75" by simp
    then show ?thesis by (simp only: of_int_eq_iff)
  qed
  with score k0 k75 not100
  show "\<exists>k. compatibilityScore r = Num (of_int k) \<and> 0 \<le> k \<and> k \<le> 100
               \<and> (compatibilityScore r = Num 100 \<longrightarrow>
                    Interest (messages_of ?c1 messages) ?n = Num 50
                  \<and> Interest (messages_of ?c2 messages) ?n = Num 50)
               \<and> k \<le> 75
               \<and> (Interest (messages_of ?c1 messages) ?n = Num 50
                  \<and> Interest (messages_of ?c2 messages) ?n = Num 50
                  \<longrightarrow> k = 75)"
    by (intro exI[of _ ?k]) simp
qed

theorem compatibility_range_witness:
  "\<exists>r. analysis ascii_utc_host two_party_chat = Inr (Some r) \<and> compatibilityScore r = Num 75"
proof -
  from compatibility_range[OF two_party_facts(1), of ascii_utc_host] two_party_facts(2)
  obtain r where r: "analysis ascii_utc_host two_party_chat = Inr (Some r)" by blast
  with compatibility_range[OF two_party_facts(1), of ascii_utc_host] two_party_interest
  obtain k where "compatibilityScore r = Num (of_int k)" "k = 75"
    by blast
  with r show ?thesis by auto
qed

text \<open>
  The rounding of the two interest levels is seen in the score: of 40 messages, 23 and 17
  are the shares \<open>57.5\<close> and \<open>42.5\<close>; the first product with 100 is the double just below
  \<open>57.5\<close>, the interest levels are 57 and 43, and the score is 65.
\<close>

lemma interest_23_of_40:
  "percentage 23 40 = Num 57" "percentage 17 40 = Num 43"
  "compatibility (Num 57) (Num 43) = Num 65"
  by code_simp+

subsection \<open>Example 1, from the text to the result\<close>

lemma example1_lines:
  "filter (\<lambda>line. trim line \<noteq> []) (split_on 0xA example1_text)
     = [of_ascii ''1/2/24, 10:00 - Alice: hello'', of_ascii ''1/2/24, 10:05 - Bob: hi there!'']"
  by code_simp

lemma example1_parse: "processWhatsAppFile newDate example1_text = Inr (example1_messages newDate)"
  by code_simp

lemma example1_contacts:
  "contact1_of (example1_messages newDate) = Some (of_ascii ''Alice'')"
  "contact2_of (example1_messages newDate) = Some (of_ascii ''Bob'')"
  "length (contacts_of (example1_messages newDate)) \<le> 2"
  by code_simp+

lemma example1_counts:
  "length (messages_of (Some (of_ascii ''Alice'')) (example1_messages newDate)) = 1"
  "length (messages_of (Some (of_ascii ''Bob'')) (example1_messages newDate)) = 1"
  "length (example1_messages newDate) = 2"
  by code_simp+

lemma Alice_neq_Bob: "of_ascii ''Alice'' \<noteq> of_ascii ''Bob''"
  by code_simp

lemma example1_analysis:
  "\<exists>r. analysis h (example1_messages newDate) = Inr (Some r)
      \<and> messageCounts r (of_ascii ''Alice'') = Some 1
      \<and> messageCounts r (of_ascii ''Bob'') = Some 1
      \<and> interestLevels r (of_ascii ''Alice'') = Some (Num 50)
      \<and> interestLevels r (of_ascii ''Bob'') = Some (Num 50)
      \<and> compatibilityScore r = Num 75"
proof -
  have "example1_messages newDate \<noteq> []" by (simp add: example1_messages_def)
  then obtain r where r: "analysis h (example1_messages newDate) = Inr (Some r)"
    using analysis_returns example1_contacts(3) by blast
  show ?thesis
    using Alice_neq_Bob
    by (simp add: r analysis_fields(4,5,6)[OF r] example1_contacts key_Some example1_counts
        Interest_percentage percentage_values compatibility_half)
qed

text \<open>
  C1, as amended. The two-line input of Example 1 parses to exactly two messages, from
  Alice and from Bob; their analysis reports a message count of 1 and an interest level
  of 50 for each, and a compatibility score of 75.
\<close>

theorem example1_pipeline:
  "\<exists>m1 m2 r. processWhatsAppFile newDate example1_text = Inr [m1, m2]
      \<and> contact m1 = of_ascii ''Alice'' \<and> message m1 = of_ascii ''hello''
      \<and> contact m2 = of_ascii ''Bob'' \<and> message m2 = of_ascii ''hi there!''
      \<and> analysis h [m1, m2] = Inr (Some r)
      \<and> messageCounts r (of_ascii ''Alice'') = Some 1
      \<and> messageCounts r (of_ascii ''Bob'') = Some 1
      \<and> interestLevels r (of_ascii ''Alice'') = Some (Num 50)
      \<and> interestLevels r (of_ascii ''Bob'') = Some (Num 50)
      \<and> compatibilityScore r = Num 75"
  using example1_analysis[of h newDate]
  unfolding example1_parse by (auto simp: example1_messages_def)

theorem example1_pipeline_witness:
  "\<exists>m1 m2 r. processWhatsAppFile (\<lambda>s. InvalidDate) example1_text = Inr [m1, m2]
      \<and> analysis ascii_utc_host [m1, m2] = Inr (Some r)
      \<and> messageCounts r (of_ascii ''Alice'') = Some 1
      \<and> messageCounts r (of_ascii ''Bob'') = Some 1
      \<and> interestLevels r (of_ascii ''Alice'') = Some (Num 50)
      \<and> interestLevels r (of_ascii ''Bob'') = Some (Num 50)
      \<and> compatibilityScore r = Num 75"
  using example1_pipeline[of "\<lambda>s. InvalidDate" ascii_utc_host] by blast

text \<open>The score of Example 1 is 75 and so is not the 100 the example states.\<close>

theorem example1_compatibility_counterexample:
  "compatibilityScore
     (result (analysis ascii_utc_host (projr (processWhatsAppFile (\<lambda>s. InvalidDate) example1_text))))
     = Num 75
   \<and> compatibilityScore
     (result (analysis ascii_utc_host (projr (processWhatsAppFile (\<lambda>s. InvalidDate) example1_text))))
     \<noteq> Num 100"
proof -
  from example1_analysis[of ascii_utc_host "\<lambda>s. InvalidDate"] obtain r where
    "analysis ascii_utc_host (example1_messages (\<lambda>s. InvalidDate)) = Inr (Some r)"
    "compatibilityScore r = Num 75" by blast
  then show ?thesis by (simp add: example1_parse result_def)
qed

subsection \<open>Metrics of an empty subsequence\<close>

lemma rhu_zero: "round_half_up 0 = 0"
  by code_simp

lemma empty_subsequence_metrics:
  "Math_round (AvgLength []) = NaN"
  "getCommunicationStyle h [] = \<lparr>questions = NaN, exclamations = NaN, caps = NaN\<rparr>"
  "getEnergyLevel h [] = Num 0"
  "getSentimentScore h [] = Num 50"
  "avgResponseTime_of [] = Num 0"
  "0 < n \<Longrightarrow> Interest [] n = Num 0"
  by (simp_all add: AvgLength_def getCommunicationStyle_def percentage_def getEnergyLevel_def
      getSentimentScore_def avgResponseTime_of_def Interest_def js_of_nat_def fl_zero rhu_zero)

lemma analysis_fields_more:
  assumes "analysis h ms = Inr (Some r)"
  shows "sentimentScores r = [key (contact1_of ms) \<mapsto> getSentimentScore h (messages_of (contact1_of ms) ms),
                              key (contact2_of ms) \<mapsto> getSentimentScore h (messages_of (contact2_of ms) ms)]"
    and "energyLevels r = [key (contact1_of ms) \<mapsto> getEnergyLevel h (messages_of (contact1_of ms) ms),
                           key (contact2_of ms) \<mapsto> getEnergyLevel h (messages_of (contact2_of ms) ms)]"
    and "\<exists>rt. responseTimes_loop (sortedMessages_of h ms)
                 [key (contact1_of ms) \<mapsto> [], key (contact2_of ms) \<mapsto> []] = Inr rt
             \<and> avgResponseTime r = [key (contact1_of ms) \<mapsto> avgResponseTime_of (the (rt (key (contact1_of ms)))),
                                     key (contact2_of ms) \<mapsto> avgResponseTime_of (the (rt (key (contact2_of ms))))]"
  using assms unfolding analysis_def Let_def
  by (auto split: if_splits sum.splits)

lemma lone_chat_facts:
  "lone_chat \<noteq> []" "length (contacts_of lone_chat) \<le> 2"
  "contact1_of lone_chat = Some (of_ascii ''Alice'')" "contact2_of lone_chat = None"
  "messages_of None lone_chat = []" "sortedMessages_of ascii_utc_host lone_chat = lone_chat"
  "of_ascii ''Alice'' \<noteq> of_ascii ''undefined''" "length lone_chat = 1"
  by (simp add: lone_chat_def, code_simp+)

text \<open>
  C3. When only one contact writes, the subsequence of the second contact is empty and
  its entries are stored under the property name \<open>undefined\<close>. The interest level, the
  energy level and the average response time of the empty subsequence are 0 and its
  sentiment score is 50; its average message length and its three communication-style
  percentages are \<open>0 / 0\<close> rounded, which is \<open>NaN\<close>, where the property asks for 0.
\<close>

theorem lone_contact_metrics:
  "returns (analysis ascii_utc_host lone_chat)
   \<and> contacts (result (analysis ascii_utc_host lone_chat)) = (Some (of_ascii ''Alice''), None)
   \<and> messageCounts (result (analysis ascii_utc_host lone_chat)) (of_ascii ''undefined'') = Some 0
   \<and> avgMessageLength (result (analysis ascii_utc_host lone_chat)) (of_ascii ''undefined'') = Some NaN
   \<and> communicationStyles (result (analysis ascii_utc_host lone_chat)) (of_ascii ''undefined'')
       = Some \<lparr>questions = NaN, exclamations = NaN, caps = NaN\<rparr>
   \<and> interestLevels (result (analysis ascii_utc_host lone_chat)) (of_ascii ''undefined'') = Some (Num 0)
   \<and> energyLevels (result (analysis ascii_utc_host lone_chat)) (of_ascii ''undefined'') = Some (Num 0)
   \<and> sentimentScores (result (analysis ascii_utc_host lone_chat)) (of_ascii ''undefined'') = Some (Num 50)
   \<and> avgResponseTime (result (analysis ascii_utc_host lone_chat)) (of_ascii ''undefined'') = Some (Num 0)"
proof -
  obtain r where r: "analysis ascii_utc_host lone_chat = Inr (Some r)"
    using analysis_returns[OF lone_chat_facts(1,2)] by blast
  have k: "key None = of_ascii ''undefined''" by (simp add: key_def)
  from analysis_fields_more(3)[OF r] obtain rt where
    rt: "responseTimes_loop lone_chat [key (Some (of_ascii ''Alice'')) \<mapsto> [], key None \<mapsto> []] = Inr rt"
    and avg: "avgResponseTime r = [key (Some (of_ascii ''Alice'')) \<mapsto> avgResponseTime_of (the (rt (key (Some (of_ascii ''Alice''))))),
                                   key None \<mapsto> avgResponseTime_of (the (rt (key None)))]"
    by (auto simp: lone_chat_facts)
  from rt have "rt (key None) = Some []" by (auto simp: lone_chat_def)
  with avg have "avgResponseTime r (of_ascii ''undefined'') = Some (Num 0)"
    by (simp add: k empty_subsequence_metrics)
  then show ?thesis
    unfolding result_eq[OF r]
    using returns_eq[OF r] lone_chat_facts(7)
    by (simp add: analysis_fields(2,3,4,5,11,12)[OF r] analysis_fields_more(1,2)[OF r]
        lone_chat_facts(3,4,5,8) k key_Some empty_subsequence_metrics)
qed

subsection \<open>Counters keyed by contact\<close>

lemma increment_same:
  "obj k = Some (js_of_nat n) \<Longrightarrow> increment obj k k = Some (js_of_nat (Suc n))"
  by (simp add: increment_def js_of_nat_def)

lemma increment_other: "k' \<noteq> k \<Longrightarrow> increment obj k' k = obj k"
  by (simp add: increment_def)

lemma messages_of_Some: "messages_of (Some c) ms = filter (\<lambda>m. contact m = c) ms"
  by (simp add: messages_of_def)

lemma initial_counters:
  "k = key c1 \<or> k = key c2 \<Longrightarrow> [key c1 \<mapsto> Num 0, key c2 \<mapsto> Num 0] k = Some (js_of_nat 0)"
  by (auto simp: js_of_nat_def)

subsection \<open>Weekend and weekday counts\<close>

lemma weekend_fold:
  assumes "fst st k = Some (js_of_nat w0)" and "snd st k = Some (js_of_nat d0)"
  shows "\<exists>w d. fst (foldl (weekend_step h) st ms) k = Some (js_of_nat w)
             \<and> snd (foldl (weekend_step h) st ms) k = Some (js_of_nat d)
             \<and> w + d = w0 + d0 + length (filter (\<lambda>m. contact m = k) ms)"
  using assms
proof (induction ms arbitrary: st w0 d0)
  case Nil
  then show ?case by (intro exI[of _ w0] exI[of _ d0]) simp
next
  case (Cons m ms)
  let ?st = "weekend_step h st m"
  let ?e = "if contact m = k then 1 else (0::nat)"
  have "\<exists>w1 d1. fst ?st k = Some (js_of_nat w1) \<and> snd ?st k = Some (js_of_nat d1)
          \<and> w1 + d1 = w0 + d0 + ?e"
    using Cons.prems
    by (cases "contact m = k") (auto simp: weekend_step_def Let_def increment_same increment_other)
  then obtain w1 d1 where s: "fst ?st k = Some (js_of_nat w1)" "snd ?st k = Some (js_of_nat d1)"
    and e: "w1 + d1 = w0 + d0 + ?e" by blast
  from Cons.IH[OF s] obtain w d where
    "fst (foldl (weekend_step h) ?st ms) k = Some (js_of_nat w)"
    "snd (foldl (weekend_step h) ?st ms) k = Some (js_of_nat d)"
    "w + d = w1 + d1 + length (filter (\<lambda>m. contact m = k) ms)" by blast
  with e show ?case by (intro exI[of _ w] exI[of _ d]) auto
qed

text \<open>
  C10. For every non-empty message sequence and each identified contact (the first or the
  second distinct contact), the weekend count and the weekday count of a result are
  numbers that add up to the number of that contact's messages, which is the message
  count reported for the contact when the two property names differ. The analysis does
  return a result when there are at most two distinct contacts.
\<close>

theorem weekend_weekday_partition:
  assumes "messages \<noteq> []"
  shows "(length (contacts_of messages) \<le> 2 \<longrightarrow> (\<exists>r. analysis h messages = Inr (Some r)))
       \<and> (\<forall>r c. analysis h messages = Inr (Some r)
                 \<and> (contact1_of messages = Some c \<or> contact2_of messages = Some c) \<longrightarrow>
            (\<exists>w d. weekend r c = Some (js_of_nat w) \<and> weekday r c = Some (js_of_nat d)
                  \<and> w + d = length (messages_of (Some c) messages)
                  \<and> (key (contact1_of messages) \<noteq> key (contact2_of messages)
                       \<longrightarrow> messageCounts r c = Some (w + d))))"
proof (intro conjI impI allI)
  assume "length (contacts_of messages) \<le> 2"
  with assms show "\<exists>r. analysis h messages = Inr (Some r)" by (rule analysis_returns)
next
  fix r c
  let ?c1 = "contact1_of messages" and ?c2 = "contact2_of messages"
  assume a: "analysis h messages = Inr (Some r) \<and> (?c1 = Some c \<or> ?c2 = Some c)"
  then have r: "analysis h messages = Inr (Some r)" and c: "?c1 = Some c \<or> ?c2 = Some c"
    by simp_all
  from c have k: "c = key ?c1 \<or> c = key ?c2" by (auto simp: key_Some)
  let ?init = "([key ?c1 \<mapsto> Num 0, key ?c2 \<mapsto> Num 0], [key ?c1 \<mapsto> Num 0, key ?c2 \<mapsto> Num 0])"
  have "fst ?init c = Some (js_of_nat 0)" "snd ?init c = Some (js_of_nat 0)"
    using initial_counters[OF k] by simp_all
  from weekend_fold[OF this, of h messages] obtain w d where
    wd: "fst (weekend_weekday_of h ?c1 ?c2 messages) c = Some (js_of_nat w)"
        "snd (weekend_weekday_of h ?c1 ?c2 messages) c = Some (js_of_nat d)"
        "w + d = length (messages_of (Some c) messages)"
    unfolding weekend_weekday_of_def messages_of_Some by auto
  have "messageCounts r c = Some (w + d)" if "key ?c1 \<noteq> key ?c2"
    using that c wd(3) by (auto simp: analysis_fields(4)[OF r] key_Some)
  with wd show "\<exists>w d. weekend r c = Some (js_of_nat w) \<and> weekday r c = Some (js_of_nat d)
                  \<and> w + d = length (messages_of (Some c) messages)
                  \<and> (key ?c1 \<noteq> key ?c2 \<longrightarrow> messageCounts r c = Some (w + d))"
    unfolding analysis_fields(9,10)[OF r] by blast
qed

theorem weekend_weekday_partition_witness:
  "\<exists>r w d. analysis ascii_utc_host two_party_chat = Inr (Some r)
     \<and> weekend r (of_ascii ''Alice'') = Some (js_of_nat w)
     \<and> weekday r (of_ascii ''Alice'') = Some (js_of_nat d)
     \<and> w + d = 1 \<and> messageCounts r (of_ascii ''Alice'') = Some (w + d)"
proof -
  note t = weekend_weekday_partition[OF two_party_facts(1), of ascii_utc_host]
  from t two_party_facts(2) obtain r where r: "analysis ascii_utc_host two_party_chat = Inr (Some r)"
    by blast
  from t r two_party_contacts(1) obtain w d where
    "weekend r (of_ascii ''Alice'') = Some (js_of_nat w)"
    "weekday r (of_ascii ''Alice'') = Some (js_of_nat d)"
    "w + d = length (messages_of (Some (of_ascii ''Alice'')) two_party_chat)"
    "key (contact1_of two_party_chat) \<noteq> key (contact2_of two_party_chat)
       \<longrightarrow> messageCounts r (of_ascii ''Alice'') = Some (w + d)"
    by blast
  with r two_party_facts(3) two_party_counts(1) show ?thesis
    by (intro exI[of _ r] exI[of _ w] exI[of _ d]) simp
qed

subsection \<open>The sorted view is chronological\<close>

text \<open>The sign of the rounded difference of two integers is the sign of the difference.\<close>

lemma js_gt_sub_int: "js_gt (js_sub (Num (of_int a)) (Num (of_int b))) (Num 0) = (b < a)"
proof -
  have s: "js_sub (Num (of_int a)) (Num (of_int b)) = fl (of_int (a - b))"
    by (simp add: js_sub_def)
  show ?thesis
  proof (cases "b < a")
    case True
    then have "1 \<le> a - b" by simp
    then have "(of_int 1 :: rat) \<le> of_int (a - b)" by (simp only: of_int_le_iff)
    then have "(1 :: rat) \<le> of_int (a - b)" by simp
    from fl_ge[OF _ this] have
      "fl (of_int (a - b)) = PosInfinity
       \<or> (\<exists>y. fl (of_int (a - b)) = Num y \<and> 1 - 1 / 2 ^ 53 - min_ulp / 2 \<le> y)" by simp
    moreover have "0 < 1 - 1 / 2 ^ 53 - min_ulp / 2" using min_ulp_small by simp
    ultimately have "js_gt (fl (of_int (a - b))) (Num 0)" by auto
    with True show ?thesis by (simp only: s)
  next
    case False
    then have "a - b \<le> 0" by simp
    then have "(of_int (a - b) :: rat) \<le> of_int 0" by (simp only: of_int_le_iff)
    then have "(of_int (a - b) :: rat) \<le> 0" by simp
    from fl_nonpos[OF this] have "\<not> js_gt (fl (of_int (a - b))) (Num 0)" by auto
    with False show ?thesis by (simp only: s)
  qed
qed

lemma compare_Date:
  assumes "timestamp x \<noteq> InvalidDate" and "timestamp y \<noteq> InvalidDate"
  shows "js_gt (compare_timestamps x y) (Num 0) = (the_time (timestamp y) < the_time (timestamp x))"
  using assms
  by (cases "timestamp x"; cases "timestamp y") (simp_all add: compare_timestamps_def js_gt_sub_int)

lemma insert_by_insort:
  assumes "timestamp x \<noteq> InvalidDate" and "\<forall>m \<in> set ys. timestamp m \<noteq> InvalidDate"
  shows "insert_by compare_timestamps x ys = insort_key (\<lambda>m. the_time (timestamp m)) x ys"
  using assms by (induction ys) (auto simp: compare_Date)

lemma stable_sort_sort_key:
  assumes "\<forall>m \<in> set ms. timestamp m \<noteq> InvalidDate"
  shows "stable_sort compare_timestamps ms = sort_key (\<lambda>m. the_time (timestamp m)) ms"
  using assms unfolding stable_sort_def sort_key_def
  by (induction ms) (auto simp: insert_by_insort simp flip: sort_key_def)

lemma getTime_NaN: "getTime d = NaN \<longleftrightarrow> d = InvalidDate"
  by (cases d) simp_all

lemma valid_dates_consistent:
  assumes "\<forall>m \<in> set ms. timestamp m \<noteq> InvalidDate"
  shows "consistent_times (map (\<lambda>m. getTime (timestamp m)) ms)"
proof -
  have "NaN \<notin> set (map (\<lambda>m. getTime (timestamp m)) ms)"
  proof
    assume "NaN \<in> set (map (\<lambda>m. getTime (timestamp m)) ms)"
    then obtain m where "m \<in> set ms" "getTime (timestamp m) = NaN" by auto
    with assms show False by (simp add: getTime_NaN)
  qed
  then show ?thesis by (simp add: consistent_times_def)
qed

lemma sortedMessages_of_sort_key:
  assumes "\<forall>m \<in> set ms. timestamp m \<noteq> InvalidDate"
  shows "sortedMessages_of h ms = sort_key (\<lambda>m. the_time (timestamp m)) ms"
  using valid_dates_consistent[OF assms] stable_sort_sort_key[OF assms]
  by (simp add: sortedMessages_of_def Let_def)

lemma sortedMessages_chronological:
  assumes "\<forall>m \<in> set ms. timestamp m \<noteq> InvalidDate"
  shows "sorted (map (\<lambda>m. the_time (timestamp m)) (sortedMessages_of h ms))"
    and "filter (\<lambda>m. the_time (timestamp m) = t) (sortedMessages_of h ms)
           = filter (\<lambda>m. the_time (timestamp m) = t) ms"
  unfolding sortedMessages_of_sort_key[OF assms]
  by (simp_all add: sort_key_stable)

subsection \<open>Conversation starters\<close>

text \<open>
  \<open>(t - q) / (1000 * 60 * 60) > 4\<close> on two time values: the difference and the quotient
  are rounded, and the test still holds exactly when the difference exceeds 4 hours.
\<close>

lemma hours_above_4:
  assumes "14400001 \<le> d"
  shows "js_gt (js_div (fl (of_int d)) (Num 3600000)) (Num 4)"
proof -
  have "(of_int 14400001 :: rat) \<le> of_int d" using assms by (simp only: of_int_le_iff)
  then have "(14400001 :: rat) \<le> of_int d" by simp
  from fl_ge[OF _ this] have
    "fl (of_int d) = PosInfinity
     \<or> (\<exists>y. fl (of_int d) = Num y \<and> 14400001 - 14400001 / 2 ^ 53 - min_ulp / 2 \<le> y)" by simp
  then show ?thesis
  proof
    assume "fl (of_int d) = PosInfinity"
    then show ?thesis by simp
  next
    assume "\<exists>y. fl (of_int d) = Num y \<and> 14400001 - 14400001 / 2 ^ 53 - min_ulp / 2 \<le> y"
    then obtain y where y: "fl (of_int d) = Num y"
      and "14400001 - 14400001 / 2 ^ 53 - min_ulp / 2 \<le> y" by blast
    moreover have "(14400000 + 1 / 2 :: rat) \<le> 14400001 - 14400001 / 2 ^ 53 - min_ulp / 2"
      using min_ulp_small by simp
    ultimately have "14400000 + 1 / 2 \<le> y" by linarith
    then have q: "4 + 1 / 7200000 \<le> y / 3600000" by simp
    from fl_ge[OF _ q] have
      "fl (y / 3600000) = PosInfinity
       \<or> (\<exists>z. fl (y / 3600000) = Num z
              \<and> (4 + 1 / 7200000) - (4 + 1 / 7200000) / 2 ^ 53 - min_ulp / 2 \<le> z)" by simp
    moreover have "(4 :: rat) < (4 + 1 / 7200000) - (4 + 1 / 7200000) / 2 ^ 53 - min_ulp / 2"
      using min_ulp_small by simp
    ultimately have "js_gt (fl (y / 3600000)) (Num 4)" by auto
    then show ?thesis by (simp add: y)
  qed
qed

lemma hours_below_4:
  assumes "d \<le> 14399999"
  shows "\<not> js_gt (js_div (fl (of_int d)) (Num 3600000)) (Num 4)"
proof -
  have "(of_int d :: rat) \<le> of_int 14399999" using assms by (simp only: of_int_le_iff)
  then have "(of_int d :: rat) \<le> 14399999" by simp
  from fl_le[OF this] have
    "fl (of_int d) = NegInfinity
     \<or> (\<exists>y. fl (of_int d) = Num y \<and> y \<le> 14399999 + 14399999 / 2 ^ 53 + min_ulp / 2)" by simp
  then show ?thesis
  proof
    assume "fl (of_int d) = NegInfinity"
    then show ?thesis by simp
  next
    assume "\<exists>y. fl (of_int d) = Num y \<and> y \<le> 14399999 + 14399999 / 2 ^ 53 + min_ulp / 2"
    then obtain y where y: "fl (of_int d) = Num y"
      and "y \<le> 14399999 + 14399999 / 2 ^ 53 + min_ulp / 2" by blast
    moreover have "(14399999 + 14399999 / 2 ^ 53 + min_ulp / 2 :: rat) \<le> 14400000 - 1 / 2"
      using min_ulp_small by simp
    ultimately have "y \<le> 14400000 - 1 / 2" by linarith
    then have q: "y / 3600000 \<le> 4 - 1 / 7200000" by simp
    from fl_le[OF q] have
      "fl (y / 3600000) = NegInfinity
       \<or> (\<exists>z. fl (y / 3600000) = Num z
              \<and> z \<le> (4 - 1 / 7200000) + (4 - 1 / 7200000) / 2 ^ 53 + min_ulp / 2)" by simp
    moreover have "((4 - 1 / 7200000) + (4 - 1 / 7200000) / 2 ^ 53 + min_ulp / 2 :: rat) < 4"
      using min_ulp_small by simp
    ultimately have "\<not> js_gt (fl (y / 3600000)) (Num 4)" by auto
    then show ?thesis by (simp add: y)
  qed
qed

lemma hours_equal_4: "\<not> js_gt (js_div (fl (of_int 14400000)) (Num 3600000)) (Num 4)"
proof -
  have "fl (of_int 14400000) = Num (of_int 14400000)" by (rule fl_of_int) simp
  moreover have "fl (of_int 4) = Num (of_int 4)" by (rule fl_of_int) simp
  ultimately show ?thesis by simp
qed

lemma gap_exceeds_4_hours:
  "js_gt (js_div (js_sub (getTime d) (getTime p)) (Num 3600000)) (Num 4)
     = more_than_4_hours_after d p"
proof (cases d; cases p)
  fix t q assume dp: "d = Date t" "p = Date q"
  have s: "js_sub (Num (of_int t)) (Num (of_int q)) = fl (of_int (t - q))"
    by (simp add: js_sub_def)
  consider "14400001 \<le> t - q" | "t - q = 14400000" | "t - q \<le> 14399999" by linarith
  then have "js_gt (js_div (fl (of_int (t - q))) (Num 3600000)) (Num 4) = (14400000 < t - q)"
  proof cases
    case 1
    with hours_above_4[OF 1] show ?thesis by simp
  next
    case 2
    with hours_equal_4 show ?thesis by simp
  next
    case 3
    with hours_below_4[OF 3] show ?thesis by simp
  qed
  then show ?thesis by (simp add: dp more_than_4_hours_after_def s)
qed (simp_all add: more_than_4_hours_after_def js_sub_def)

lemma starters_step_eq:
  "starters_step (cs, getTime p) m
     = (if more_than_4_hours_after (timestamp m) p then increment cs (contact m) else cs,
        getTime (timestamp m))"
  by (simp add: starters_step_def Let_def gap_exceeds_4_hours)

lemma starters_fold:
  assumes "cs k = Some (js_of_nat n0)"
  shows "fst (foldl starters_step (cs, getTime p) ms) k
           = Some (js_of_nat (n0 + length (filter
               (\<lambda>(previous, m). contact m = k \<and> more_than_4_hours_after (timestamp m) previous)
               (zip (p # map timestamp ms) ms))))"
  using assms
proof (induction ms arbitrary: cs p n0)
  case Nil
  then show ?case by simp
next
  case (Cons m ms)
  let ?cs = "if more_than_4_hours_after (timestamp m) p then increment cs (contact m) else cs"
  let ?e = "if contact m = k \<and> more_than_4_hours_after (timestamp m) p then 1 else (0::nat)"
  have h: "?cs k = Some (js_of_nat (n0 + ?e))"
    using Cons.prems by (auto simp: increment_same increment_other)
  have "fst (foldl starters_step (?cs, getTime (timestamp m)) ms) k
          = Some (js_of_nat ((n0 + ?e) + length (filter
               (\<lambda>(previous, m). contact m = k \<and> more_than_4_hours_after (timestamp m) previous)
               (zip (timestamp m # map timestamp ms) ms))))"
    using h by (rule Cons.IH)
  then show ?case by (simp add: starters_step_eq)
qed

lemma conversationStarters_of_eq:
  assumes "k = key c1 \<or> k = key c2"
  shows "conversationStarters_of c1 c2 ms k = Some (js_of_nat (spec_conversationStarters k ms))"
proof -
  have "getTime (Date 0) = Num 0" by simp
  with initial_counters[OF assms]
    starters_fold[of "[key c1 \<mapsto> Num 0, key c2 \<mapsto> Num 0]" k 0 "Date 0" ms]
  show ?thesis
    by (simp add: conversationStarters_of_def spec_conversationStarters_def)
qed

lemma epoch_chat_facts:
  "epoch_chat \<noteq> []" "length (contacts_of epoch_chat) \<le> 2"
  "contact1_of epoch_chat = Some (of_ascii ''Alice'')"
  "spec_conversationStarters (of_ascii ''Alice'') (sortedMessages_of ascii_utc_host epoch_chat) = 0"
  by (simp add: epoch_chat_def, code_simp+)

lemma undated_chat_facts:
  "undated_chat \<noteq> []" "length (contacts_of undated_chat) \<le> 2"
  "contact1_of undated_chat = Some (of_ascii ''Alice'')"
  "spec_conversationStarters (of_ascii ''Alice'') (sortedMessages_of ascii_utc_host undated_chat) = 0"
  by (simp add: undated_chat_def, code_simp+)

lemma evening_chat_facts:
  "evening_chat \<noteq> []" "length (contacts_of evening_chat) \<le> 2"
  "contact1_of evening_chat = Some (of_ascii ''Bob'')"
  "contact2_of evening_chat = Some (of_ascii ''Alice'')"
  "\<forall>m \<in> set evening_chat. timestamp m \<noteq> InvalidDate"
  "sort_key (\<lambda>m. the_time (timestamp m)) evening_chat
     = [msg ''Alice'' ''hello'' 1704189600000, msg ''Bob'' ''hi there!'' 1704189900000,
        msg ''Bob'' ''good evening'' 1704207900000]"
  "spec_conversationStarters (of_ascii ''Alice'')
     [msg ''Alice'' ''hello'' 1704189600000, msg ''Bob'' ''hi there!'' 1704189900000,
      msg ''Bob'' ''good evening'' 1704207900000] = 1"
  "spec_conversationStarters (of_ascii ''Bob'')
     [msg ''Alice'' ''hello'' 1704189600000, msg ''Bob'' ''hi there!'' 1704189900000,
      msg ''Bob'' ''good evening'' 1704207900000] = 1"
  by (simp add: evening_chat_def, code_simp+)

text \<open>
  C8, as amended. The walk is over the sorted copy of the messages; when every timestamp
  is a valid date, that is the messages in chronological order, messages of the same time
  in the order of the transcript. A message adds one to the \<open>conversationStarters\<close> count
  of its sender (the first or the second contact) exactly when its timestamp is a valid
  date more than 4 hours after that of the message just before it in the walk, from
  whichever contact, also a valid date; the first message is compared with epoch zero and
  so counts exactly when its own timestamp is more than 4 hours after the epoch. The
  analysis does return a result when there are at most two distinct contacts.
\<close>

theorem conversation_starters_count:
  assumes "messages \<noteq> []"
  shows "(length (contacts_of messages) \<le> 2 \<longrightarrow> (\<exists>r. analysis h messages = Inr (Some r)))
       \<and> (\<forall>r k. analysis h messages = Inr (Some r)
                 \<and> (k = key (contact1_of messages) \<or> k = key (contact2_of messages)) \<longrightarrow>
            conversationStarters r k
              = Some (js_of_nat (spec_conversationStarters k (sortedMessages_of h messages))))
       \<and> ((\<forall>m \<in> set messages. timestamp m \<noteq> InvalidDate) \<longrightarrow>
            sortedMessages_of h messages = sort_key (\<lambda>m. the_time (timestamp m)) messages
          \<and> sorted (map (\<lambda>m. the_time (timestamp m)) (sortedMessages_of h messages)))"
proof (intro conjI impI allI)
  assume "length (contacts_of messages) \<le> 2"
  with assms show "\<exists>r. analysis h messages = Inr (Some r)" by (rule analysis_returns)
next
  fix r k
  assume "analysis h messages = Inr (Some r)
            \<and> (k = key (contact1_of messages) \<or> k = key (contact2_of messages))"
  then have r: "analysis h messages = Inr (Some r)"
    and k: "k = key (contact1_of messages) \<or> k = key (contact2_of messages)" by simp_all
  show "conversationStarters r k
       = Some (js_of_nat (spec_conversationStarters k (sortedMessages_of h messages)))"
    unfolding analysis_fields(8)[OF r] using k by (rule conversationStarters_of_eq)
next
  assume v: "\<forall>m \<in> set messages. timestamp m \<noteq> InvalidDate"
  then show "sortedMessages_of h messages = sort_key (\<lambda>m. the_time (timestamp m)) messages"
    by (rule sortedMessages_of_sort_key)
  from v show "sorted (map (\<lambda>m. the_time (timestamp m)) (sortedMessages_of h messages))"
    by (rule sortedMessages_chronological)
qed

text \<open>
  In \<open>evening_chat\<close> the walk starts at the message of Alice, the earliest, which is a
  starter; the answer of Bob five minutes later is not; his message five hours later is.
\<close>

theorem conversation_starters_count_witness:
  "\<exists>r. analysis ascii_utc_host evening_chat = Inr (Some r)
      \<and> sortedMessages_of ascii_utc_host evening_chat
          = [msg ''Alice'' ''hello'' 1704189600000, msg ''Bob'' ''hi there!'' 1704189900000,
             msg ''Bob'' ''good evening'' 1704207900000]
      \<and> conversationStarters r (of_ascii ''Alice'') = Some (Num 1)
      \<and> conversationStarters r (of_ascii ''Bob'') = Some (Num 1)"
proof -
  note t = conversation_starters_count[OF evening_chat_facts(1), of ascii_utc_host]
  from t evening_chat_facts(2) obtain r where r: "analysis ascii_utc_host evening_chat = Inr (Some r)"
    by blast
  from t evening_chat_facts(5) have s: "sortedMessages_of ascii_utc_host evening_chat
      = sort_key (\<lambda>m. the_time (timestamp m)) evening_chat" by blast
  have "of_ascii ''Bob'' = key (contact1_of evening_chat)"
    "of_ascii ''Alice'' = key (contact2_of evening_chat)"
    by (simp_all add: evening_chat_facts(3,4) key_Some)
  with t r have "conversationStarters r (of_ascii ''Alice'')
      = Some (js_of_nat (spec_conversationStarters (of_ascii ''Alice'')
          (sortedMessages_of ascii_utc_host evening_chat)))"
    "conversationStarters r (of_ascii ''Bob'')
      = Some (js_of_nat (spec_conversationStarters (of_ascii ''Bob'')
          (sortedMessages_of ascii_utc_host evening_chat)))"
    by blast+
  with r s show ?thesis by (simp add: evening_chat_facts(6,7,8) js_of_nat_def)
qed

text \<open>
  A first message stamped one hour after the epoch is not counted as a starter, and
  neither is a first message whose date is invalid.
\<close>

theorem first_message_near_epoch_counterexample:
  "returns (analysis ascii_utc_host epoch_chat)
   \<and> conversationStarters (result (analysis ascii_utc_host epoch_chat)) (of_ascii ''Alice'') = Some (Num 0)
   \<and> returns (analysis ascii_utc_host undated_chat)
   \<and> conversationStarters (result (analysis ascii_utc_host undated_chat)) (of_ascii ''Alice'') = Some (Num 0)"
proof -
  obtain r where r: "analysis ascii_utc_host epoch_chat = Inr (Some r)"
    using analysis_returns[OF epoch_chat_facts(1,2)] by blast
  obtain u where u: "analysis ascii_utc_host undated_chat = Inr (Some u)"
    using analysis_returns[OF undated_chat_facts(1,2)] by blast
  show ?thesis
    unfolding result_eq[OF r] result_eq[OF u]
    using returns_eq[OF r] returns_eq[OF u]
    by (simp add: analysis_fields(8)[OF r] analysis_fields(8)[OF u] conversationStarters_of_eq
        epoch_chat_facts(3,4) undated_chat_facts(3,4) key_Some js_of_nat_def)
qed

subsection \<open>Red flags\<close>

lemma str_includes_occurrences: "str_includes s t \<longleftrightarrow> 0 < occurrences s t"
  by (induction s) auto

lemma keyword_count_occurrences:
  "keyword_count h messages keyword
     = length (filter (\<lambda>m. 0 < occurrences (toLowerCase h (message m)) (of_ascii keyword)) messages)"
  by (simp add: keyword_count_def str_includes_occurrences)

lemma keyword_count_le: "keyword_count h messages keyword \<le> spec_occurrence_count h messages keyword"
  unfolding keyword_count_occurrences spec_occurrence_count_def
  by (induction messages) auto

lemma flags_of_each:
  "concat (map (\<lambda>keyword. if P keyword then [f cat keyword] else []) kws)
     = map (\<lambda>(cat, keyword). f cat keyword)
         (filter (\<lambda>(cat, keyword). P keyword) (map (Pair cat) kws))"
  by (induction kws) auto

lemma flags_of_table:
  "concat (map (\<lambda>(cat, kws).
       concat (map (\<lambda>keyword. if P keyword then [f cat keyword] else []) kws)) tbl)
     = map (\<lambda>(cat, keyword). f cat keyword)
         (filter (\<lambda>(cat, keyword). P keyword)
            (concat (map (\<lambda>(cat, kws). map (Pair cat) kws) tbl)))"
  by (induction tbl) (auto simp: flags_of_each)

lemma keyword_table_eq:
  "keyword_table = concat (map (\<lambda>(cat, keywords). map (Pair cat) keywords) redFlagKeywords)"
  by (simp add: keyword_table_def redFlagKeywords_def)

lemma redFlags_of_table:
  "redFlags_of h messages
     = map (\<lambda>(cat, keyword). flag_of cat keyword (keyword_count h messages keyword))
         (filter (\<lambda>(cat, keyword). keyword_count h messages keyword > 0) keyword_table)"
  unfolding redFlags_of_def Let_def keyword_table_eq
  by (rule flags_of_table)

lemma blocked_chat_counts:
  "map (\<lambda>(cat, keyword). keyword_count ascii_utc_host blocked_chat keyword) keyword_table
     = [0, 0, 0, 0, 0, 0, 0, 0, 6, 6, 0, 0, 0, 0, 0, 0]"
  by code_simp

text \<open>
  C5, as amended. For every message sequence the red flags are, in the order of the
  keyword table, one entry for each keyword whose count is positive; the count of a
  keyword is the number of messages, of any contact, in whose lower-cased text the
  keyword occurs at least once; the keywords are pairwise different; and the severity of
  an entry is \<open>high\<close> for a count above 10, \<open>medium\<close> for a count above 5, \<open>low\<close> otherwise.
\<close>

theorem red_flags_count_messages:
  "redFlags_of h messages
     = map (\<lambda>(cat, keyword). flag_of cat keyword (keyword_count h messages keyword))
         (filter (\<lambda>(cat, keyword). keyword_count h messages keyword > 0) keyword_table)
   \<and> distinct (map snd keyword_table)
   \<and> (\<forall>keyword. keyword_count h messages keyword
         = length (filter (\<lambda>m. 0 < occurrences (toLowerCase h (message m)) (of_ascii keyword))
                     messages))
   \<and> (\<forall>cat keyword n. severity (flag_of cat keyword n)
         = of_ascii (if n > 10 then ''high'' else if n > 5 then ''medium'' else ''low''))"
proof (intro conjI allI)
  show "distinct (map snd keyword_table)" by (simp add: keyword_table_def)
qed (simp_all only: redFlags_of_table keyword_count_occurrences, simp_all add: flag_of_def)

theorem red_flags_count_messages_witness:
  "redFlags_of ascii_utc_host blocked_chat
     = [flag_of ''blocking'' ''block'' 6, flag_of ''blocking'' ''blocked'' 6]
   \<and> severity (flag_of ''blocking'' ''blocked'' 6) = of_ascii ''medium''"
proof -
  note t = red_flags_count_messages[of ascii_utc_host blocked_chat]
  from t have "redFlags_of ascii_utc_host blocked_chat
     = map (\<lambda>(cat, keyword). flag_of cat keyword (keyword_count ascii_utc_host blocked_chat keyword))
         (filter (\<lambda>(cat, keyword). keyword_count ascii_utc_host blocked_chat keyword > 0) keyword_table)"
    by blast
  moreover from t have "severity (flag_of ''blocking'' ''blocked'' 6)
     = of_ascii (if (6::nat) > 10 then ''high'' else if (6::nat) > 5 then ''medium'' else ''low'')"
    by blast
  ultimately show ?thesis
    using blocked_chat_counts unfolding keyword_table_def by simp
qed

text \<open>
  One message in which \<open>block\<close> occurs twice is counted once: the entry reads
  \<open>Mentioned "block" 1 times\<close>, while the occurrences number 2.
\<close>

theorem repeated_keyword_counterexample:
  "redFlags_of ascii_utc_host repeat_chat = [flag_of ''blocking'' ''block'' 1]
   \<and> flag_message (flag_of ''blocking'' ''block'' 1)
       = of_ascii ''Mentioned '' @ [0x22] @ of_ascii ''block'' @ [0x22] @ of_ascii '' 1 times''
   \<and> spec_occurrence_count ascii_utc_host repeat_chat ''block'' = 2"
  by code_simp

section \<open>Errors of the core\<close>

text \<open>
  The parser fails with \<open>NoMessagesFound\<close> exactly when none of the lines of the input
  (the pieces between newlines) matches the message-line pattern; as soon as one line
  matches, it succeeds with a non-empty list of messages; it signals no other error; and
  the analysis of the messages it returns signals no error either when they come from at
  most two distinct contacts.
\<close>

lemma parse_fails_iff_no_line_matches:
  "(processWhatsAppFile newDate content = Inl NoMessagesFound \<longleftrightarrow>
      (\<forall>line \<in> set (split_on 0xA content). match_anchored line_pattern line = None))
   \<and> ((\<exists>line \<in> set (split_on 0xA content). match_anchored line_pattern line \<noteq> None) \<longrightarrow>
      (\<exists>messages. processWhatsAppFile newDate content = Inr messages \<and> messages \<noteq> []))
   \<and> processWhatsAppFile newDate content \<noteq> Inl TypeError
   \<and> (\<forall>messages. processWhatsAppFile newDate content = Inr messages
          \<and> length (contacts_of messages) \<le> 2 \<longrightarrow>
        (\<exists>r. analysis h messages = Inr (Some r)))"
proof (intro conjI allI impI)
  fix messages
  assume a: "processWhatsAppFile newDate content = Inr messages
              \<and> length (contacts_of messages) \<le> 2"
  then have "messages \<noteq> []"
    unfolding processWhatsAppFile_def Let_def by (auto split: if_splits)
  with a show "\<exists>r. analysis h messages = Inr (Some r)" by (simp add: analysis_returns)
qed (use match_line_not_blank in
      \<open>auto simp: processWhatsAppFile_def Let_def map_filter_Nil parse_line_None\<close>)

subsection \<open>A third contact in the response-time loop\<close>

text \<open>
  The exception of the response-time loop is the exception of the analysis.
\<close>

lemma analysis_throws_if:
  assumes "ms \<noteq> []"
    and "responseTimes_loop (sortedMessages_of h ms)
           [key (contact1_of ms) \<mapsto> [], key (contact2_of ms) \<mapsto> []] = Inl e"
  shows "analysis h ms = Inl e"
  using assms unfolding analysis_def Let_def by simp

lemma responseTimes_loop_error_from:
  "responseTimes_loop (p # ms) rt = Inl e \<Longrightarrow> e = TypeError"
proof (induction ms arbitrary: p rt)
  case Nil
  then show ?case by simp
next
  case (Cons c rest)
  show ?case
  proof (cases "responseTimes_loop (c # rest) rt = Inl e")
    case True
    then show ?thesis by (rule Cons.IH)
  next
    case False
    with Cons.prems have "e = TypeError
        \<or> (\<exists>v. responseTimes_loop (c # rest) (rt(contact c \<mapsto> v)) = Inl e)"
      by (auto simp: Let_def split: if_splits option.splits)
    then show ?thesis using Cons.IH by blast
  qed
qed

lemma responseTimes_loop_error: "responseTimes_loop ms rt = Inl e \<Longrightarrow> e = TypeError"
  by (cases ms) (simp_all only: responseTimes_loop_error_from, simp)

lemma busy_group_chat_facts:
  "busy_group_chat \<noteq> []"
  "contacts_of busy_group_chat = [of_ascii ''Alice'', of_ascii ''Bob'', of_ascii ''Carol'']"
  "isl (responseTimes_loop (sortedMessages_of ascii_utc_host busy_group_chat)
         [key (contact1_of busy_group_chat) \<mapsto> [], key (contact2_of busy_group_chat) \<mapsto> []])"
  by (simp add: busy_group_chat_def, code_simp+)

lemma busy_group_parse:
  "map contact_and_message (projr (processWhatsAppFile newDate busy_group_text))
     = map contact_and_message busy_group_chat"
  by code_simp

text \<open>
  C6. The three lines of \<open>busy_group_text\<close> all match the pattern and the parser returns
  three messages, of Alice, Bob and Carol. When their timestamps are five minutes apart,
  as in \<open>busy_group_chat\<close>, the response-time loop reaches the message of Carol, finds no
  array for her in \<open>responseTimes\<close>, and the analysis throws a \<open>TypeError\<close>: an error of
  the core other than \<open>NoMessagesFound\<close>.
\<close>

theorem third_contact_TypeError:
  "map contact_and_message (projr (processWhatsAppFile newDate busy_group_text))
     = map contact_and_message busy_group_chat
   \<and> contacts_of busy_group_chat = [of_ascii ''Alice'', of_ascii ''Bob'', of_ascii ''Carol'']
   \<and> analysis ascii_utc_host busy_group_chat = Inl TypeError"
proof -
  from busy_group_chat_facts(3) obtain e where
    e: "responseTimes_loop (sortedMessages_of ascii_utc_host busy_group_chat)
          [key (contact1_of busy_group_chat) \<mapsto> [], key (contact2_of busy_group_chat) \<mapsto> []] = Inl e"
    by (auto simp: isl_def)
  then have "e = TypeError" by (rule responseTimes_loop_error)
  with analysis_throws_if[OF busy_group_chat_facts(1) e]
  have "analysis ascii_utc_host busy_group_chat = Inl TypeError" by simp
  with busy_group_parse busy_group_chat_facts(2) show ?thesis by simp
qed

end
